theory Spec2Isabelle
  imports Main
begin

section \<open>The hashy step table of \<^verbatim>\<open>hashy_step_table.py\<close>\<close>

text \<open>
  The table is an open-addressing hash table over string keys; \<open>of_char\<close> is Python's
  \<^verbatim>\<open>ord\<close> on the characters of a key. A slot of the backing
  array holds \<^verbatim>\<open>None\<close>, the sentinel \<^verbatim>\<open>DELETED\<close> or a tuple \<^verbatim>\<open>(key, value)\<close>.
  Every quantity the hash functions compute is a non-negative Python integer, so they
  are natural numbers here; the one subtraction, \<^verbatim>\<open>table_size - 1\<close>, is only reached
  after a modulus by \<^verbatim>\<open>table_size\<close> has succeeded, that is with \<^verbatim>\<open>table_size\<close> positive.
  The field \<^verbatim>\<open>count\<close> is decremented by deletions and can become negative, so it is an
  integer.
\<close>

datatype error = KeyError | FullError | ZeroDivisionError | TypeError | ValueError | IndexError

datatype 'v slot = Empty | Tombstone | Occupied string 'v

record 'v table =
  TABLE_SIZES :: "nat list"
  size_index :: nat
  array :: "'v slot list"
  count :: int

text \<open>The outcome of a mutating method: the exception raised, if any, and the table
  as the call leaves it.\<close>

type_synonym 'v outcome = "error option \<times> 'v table"

definition DEFAULT_TABLE_SIZES :: "nat list" where
  "DEFAULT_TABLE_SIZES = [5, 13, 29, 53, 97, 193, 389, 769, 1543, 3079, 6151, 12289, 24593,
     49157, 98317, 196613, 393241, 786433, 1572869]"

definition HASH_BASE :: nat where
  "HASH_BASE = 31"

text \<open>Modelled from the spec: \<^verbatim>\<open>ArrayR\<close> of \<^verbatim>\<open>data_structures.referential_array\<close> is
  not among the sources. The spec describes it as a fixed-length indexable sequence of
  slots, all Empty when allocated, and the sizes of a schedule as positive.\<close>

definition ArrayR :: "nat \<Rightarrow> 'v slot list" where
  "ArrayR n = replicate n Empty"

definition init :: "nat list option \<Rightarrow> error + 'v table" where
  "init sizes =
     (let ts = (case sizes of None \<Rightarrow> DEFAULT_TABLE_SIZES | Some s \<Rightarrow> s)
      in if 0 < length ts
         then Inr \<lparr>TABLE_SIZES = ts, size_index = 0, array = ArrayR (ts ! 0), count = 0\<rparr>
         else Inl IndexError)"

definition table_size :: "'v table \<Rightarrow> nat" where
  "table_size t = length (array t)"

text \<open>\<^verbatim>\<open>hash\<close>: the loop over the characters, with \<^verbatim>\<open>value\<close> and \<^verbatim>\<open>a\<close> as loop state.
  Both moduli raise \<^verbatim>\<open>ZeroDivisionError\<close> when the divisor is zero.\<close>

fun hash_loop :: "nat \<Rightarrow> string \<Rightarrow> nat \<Rightarrow> nat \<Rightarrow> error + nat" where
  "hash_loop n [] val a = Inr val"
| "hash_loop n (c # cs) val a =
     (if n = 0 then Inl ZeroDivisionError
      else if n - 1 = 0 then Inl ZeroDivisionError
      else hash_loop n cs ((of_char c + a * val) mod n) (a * HASH_BASE mod (n - 1)))"

definition hash :: "'v table \<Rightarrow> string \<Rightarrow> error + nat" where
  "hash t key = hash_loop (table_size t) key 0 31415"

fun hash2_loop :: "nat \<Rightarrow> string \<Rightarrow> nat \<Rightarrow> error + nat" where
  "hash2_loop n [] val = Inr (max 1 val)"
| "hash2_loop n (c # cs) val =
     (if n = 0 then Inl ZeroDivisionError
      else hash2_loop n cs ((of_char c + val * 37) mod n))"

definition hash2 :: "'v table \<Rightarrow> string \<Rightarrow> error + nat" where
  "hash2 t key = hash2_loop (table_size t) key 0"

definition len :: "'v table \<Rightarrow> error + int" where
  "len t = (if count t < 0 then Inl ValueError else Inr (count t))"

text \<open>\<^verbatim>\<open>_hashy_probe\<close>: the \<^verbatim>\<open>for\<close> loop runs \<^verbatim>\<open>table_size\<close> times; the first argument
  counts the iterations left, and the equation for 0 is the code after the loop.\<close>

fun probe_loop ::
  "nat \<Rightarrow> 'v slot list \<Rightarrow> string \<Rightarrow> bool \<Rightarrow> nat \<Rightarrow> nat \<Rightarrow> nat option \<Rightarrow> error + nat" where
  "probe_loop 0 arr key is_insert step_size position first_deleted =
     (if is_insert \<and> first_deleted \<noteq> None then Inr (the first_deleted)
      else if is_insert then Inl FullError
      else Inl KeyError)"
| "probe_loop (Suc n) arr key is_insert step_size position first_deleted =
     (case arr ! position of
        Empty \<Rightarrow>
          (if is_insert
           then Inr (case first_deleted of Some d \<Rightarrow> d | None \<Rightarrow> position)
           else Inl KeyError)
      | Tombstone \<Rightarrow>
          probe_loop n arr key is_insert step_size ((position + step_size) mod length arr)
            (if first_deleted = None then Some position else first_deleted)
      | Occupied k v \<Rightarrow>
          (if k = key then Inr position
           else probe_loop n arr key is_insert step_size
                  ((position + step_size) mod length arr) first_deleted))"

definition hashy_probe :: "'v table \<Rightarrow> string \<Rightarrow> bool \<Rightarrow> error + nat" where
  "hashy_probe t key is_insert =
     (case hash t key of
        Inl e \<Rightarrow> Inl e
      | Inr position \<Rightarrow>
          (case hash2 t key of
             Inl e \<Rightarrow> Inl e
           | Inr step_size \<Rightarrow>
               probe_loop (table_size t) (array t) key is_insert step_size position None))"

text \<open>\<^verbatim>\<open>keys\<close> and \<^verbatim>\<open>values\<close> scan the slots in index order. A slot that is not \<^verbatim>\<open>None\<close>
  is subscripted; the sentinel \<^verbatim>\<open>DELETED\<close> is a bare \<^verbatim>\<open>object()\<close>, and subscripting it
  raises \<^verbatim>\<open>TypeError\<close>.\<close>

fun keys_loop :: "'v slot list \<Rightarrow> string list \<Rightarrow> error + string list" where
  "keys_loop [] res = Inr res"
| "keys_loop (Empty # ss) res = keys_loop ss res"
| "keys_loop (Tombstone # ss) res = Inl TypeError"
| "keys_loop (Occupied k v # ss) res = keys_loop ss (res @ [k])"

definition keys :: "'v table \<Rightarrow> error + string list" where
  "keys t = keys_loop (array t) []"

fun values_loop :: "'v slot list \<Rightarrow> 'v list \<Rightarrow> error + 'v list" where
  "values_loop [] res = Inr res"
| "values_loop (Empty # ss) res = values_loop ss res"
| "values_loop (Tombstone # ss) res = Inl TypeError"
| "values_loop (Occupied k v # ss) res = values_loop ss (res @ [v])"

definition values_tbl :: "'v table \<Rightarrow> error + 'v list" where
  "values_tbl t = values_loop (array t) []"

definition getitem :: "'v table \<Rightarrow> string \<Rightarrow> error + 'v" where
  "getitem t key =
     (case hashy_probe t key False of
        Inl e \<Rightarrow> Inl e
      | Inr position \<Rightarrow>
          (case array t ! position of
             Occupied k v \<Rightarrow> Inr v
           | _ \<Rightarrow> Inl TypeError))"

definition contains :: "'v table \<Rightarrow> string \<Rightarrow> error + bool" where
  "contains t key =
     (case getitem t key of
        Inl KeyError \<Rightarrow> Inr False
      | Inl e \<Rightarrow> Inl e
      | Inr _ \<Rightarrow> Inr True)"

definition delitem :: "'v table \<Rightarrow> string \<Rightarrow> 'v outcome" where
  "delitem t key =
     (case hashy_probe t key False of
        Inl e \<Rightarrow> (Some e, t)
      | Inr position \<Rightarrow>
          (None, t\<lparr>array := (array t)[position := Tombstone], count := count t - 1\<rparr>))"

text \<open>The write of \<^verbatim>\<open>__setitem__\<close>: the count is incremented only when the resolved
  slot is \<^verbatim>\<open>None\<close>.\<close>

definition store :: "'v table \<Rightarrow> nat \<Rightarrow> string \<Rightarrow> 'v \<Rightarrow> 'v table" where
  "store t position key data =
     (let t1 = (if array t ! position = Empty then t\<lparr>count := count t + 1\<rparr> else t)
      in t1\<lparr>array := (array t1)[position := Occupied key data]\<rparr>)"

text \<open>The load test \<^verbatim>\<open>len(self) > self.table_size * 2 / 3\<close> compares an integer with the
  float of a true division. Python compares the two exactly, and for every table size
  an array can have the rounded quotient lies between the same two integers as the
  exact one, so the test is \<open>3 * count > 2 * table_size\<close>. \<^verbatim>\<open>len(self)\<close> itself raises
  \<^verbatim>\<open>ValueError\<close> when \<^verbatim>\<open>__len__\<close> returns a negative number.\<close>

definition load_exceeded :: "int \<Rightarrow> nat \<Rightarrow> bool" where
  "load_exceeded n cap = (3 * n > 2 * int cap)"

function setitem :: "'v table \<Rightarrow> string \<Rightarrow> 'v \<Rightarrow> 'v outcome"
  and rehash :: "'v table \<Rightarrow> 'v outcome"
  and reinsert :: "'v slot list \<Rightarrow> 'v table \<Rightarrow> 'v outcome" where
  "setitem t key data =
     (case hashy_probe t key True of
        Inl e \<Rightarrow> (Some e, t)
      | Inr position \<Rightarrow>
          (let t2 = store t position key data
           in case len t2 of
                Inl e \<Rightarrow> (Some e, t2)
              | Inr n \<Rightarrow> if load_exceeded n (table_size t2) then rehash t2 else (None, t2)))"
| "rehash t =
     (let old_array = array t;
          t1 = t\<lparr>size_index := size_index t + 1\<rparr>
      in if size_index t1 \<ge> length (TABLE_SIZES t1) then (Some FullError, t1)
         else reinsert old_array
                (t1\<lparr>array := ArrayR (TABLE_SIZES t1 ! size_index t1), count := 0\<rparr>))"
| "reinsert [] t = (None, t)"
| "reinsert (Empty # items) t = reinsert items t"
| "reinsert (Tombstone # items) t = (Some TypeError, t)"
| "reinsert (Occupied key data # items) t =
     (case setitem t key data of
        (Some e, t') \<Rightarrow> (Some e, t')
      | (None, t') \<Rightarrow> reinsert items t')"
  by pat_completeness auto

text \<open>A rehash inside \<^verbatim>\<open>__setitem__\<close> reinserts through \<^verbatim>\<open>__setitem__\<close>, which can
  rehash again. Every rehash that goes on advances \<^verbatim>\<open>size_index\<close> within the schedule,
  which never changes, so the recursion ends.\<close>

lemma store_fields [simp]:
  "TABLE_SIZES (store t p k d) = TABLE_SIZES t"
  "size_index (store t p k d) = size_index t"
  by (simp_all add: store_def Let_def)

lemma setitem_rehash_reinsert_dom_mono:
  "setitem_rehash_reinsert_dom (Inl (t, key, data)) \<Longrightarrow>
     TABLE_SIZES (snd (setitem t key data)) = TABLE_SIZES t \<and>
     size_index t \<le> size_index (snd (setitem t key data))"
  "setitem_rehash_reinsert_dom (Inr (Inl t)) \<Longrightarrow>
     TABLE_SIZES (snd (rehash t)) = TABLE_SIZES t \<and>
     size_index t \<le> size_index (snd (rehash t))"
  "setitem_rehash_reinsert_dom (Inr (Inr (items, t))) \<Longrightarrow>
     TABLE_SIZES (snd (reinsert items t)) = TABLE_SIZES t \<and>
     size_index t \<le> size_index (snd (reinsert items t))"
proof (induct rule: setitem_rehash_reinsert.pinduct)
  case (1 t key data)
  then show ?case
    by (auto simp: setitem.psimps Let_def split: sum.splits)
next
  case (2 t)
  show ?case
  proof (cases "length (TABLE_SIZES t) \<le> Suc (size_index t)")
    case True
    with 2(1) show ?thesis by (simp add: rehash.psimps Let_def)
  next
    case False
    with 2(2)[OF refl refl] 2(1) show ?thesis
      by (simp add: rehash.psimps Let_def)
  qed
next
  case (3 t)
  then show ?case by (simp add: reinsert.psimps)
next
  case (4 items t)
  then show ?case by (simp add: reinsert.psimps)
next
  case (5 items t)
  then show ?case by (simp add: reinsert.psimps)
next
  case (6 key data items t)
  show ?case
  proof (cases "setitem t key data")
    case (Pair x y)
    with 6 show ?thesis
      by (cases x) (auto simp: reinsert.psimps)
  qed
qed

termination setitem
proof (relation "inv_image (less_than <*lex*> less_than)
    (\<lambda>x. case x of
        Inl (t, key, data) \<Rightarrow> (length (TABLE_SIZES t) - size_index t, Suc 0)
      | Inr (Inl t) \<Rightarrow> (length (TABLE_SIZES t) - size_index t, 0)
      | Inr (Inr (items, t)) \<Rightarrow> (length (TABLE_SIZES t) - size_index t, 2 + length items))",
    goal_cases)
  case 1
  show ?case by (intro wf_inv_image wf_lex_prod wf_less_than)
next
  case (2 t key data position t2 n)
  then show ?case by simp
next
  case (3 t old t1)
  then show ?case by auto
next
  case (4 items t)
  then show ?case by simp
next
  case (5 key data items t)
  then show ?case by simp
next
  case (6 key data items t x y)
  from 6(1) have y: "snd (setitem t key data) = y"
    by (metis snd_conv)
  from setitem_rehash_reinsert_dom_mono(1)[OF 6(3)] show ?case
    unfolding y by auto
qed


declare setitem.simps [simp del] rehash.simps [simp del]

section \<open>The probe as the specification words it\<close>

text \<open>The positions a probe examines: it starts at a position and advances by the step
  modulo the capacity, once per unit of budget.\<close>

fun probe_path :: "nat \<Rightarrow> nat \<Rightarrow> nat \<Rightarrow> nat \<Rightarrow> nat list" where
  "probe_path 0 capacity position step = []"
| "probe_path (Suc n) capacity position step =
     position # probe_path n capacity ((position + step) mod capacity) step"

fun holds_key :: "'v slot \<Rightarrow> string \<Rightarrow> bool" where
  "holds_key (Occupied k v) key = (k = key)"
| "holds_key _ key = False"

text \<open>A position resolves the probe when its slot is Empty or Occupied with the key.\<close>

definition resolves :: "'v slot list \<Rightarrow> string \<Rightarrow> nat \<Rightarrow> bool" where
  "resolves slots key p = (slots ! p = Empty \<or> holds_key (slots ! p) key)"

definition first_resolving :: "'v slot list \<Rightarrow> string \<Rightarrow> nat list \<Rightarrow> nat option" where
  "first_resolving slots key path = find (resolves slots key) path"

text \<open>The first Tombstone among the positions passed before the probe is resolved.\<close>

definition first_tombstone :: "'v slot list \<Rightarrow> string \<Rightarrow> nat list \<Rightarrow> nat option" where
  "first_tombstone slots key path =
     find (\<lambda>p. slots ! p = Tombstone) (takeWhile (\<lambda>p. \<not> resolves slots key p) path)"

definition probe_spec_on ::
  "'v slot list \<Rightarrow> string \<Rightarrow> bool \<Rightarrow> nat list \<Rightarrow> nat option \<Rightarrow> error + nat" where
  "probe_spec_on slots key is_insert path tombstone =
     (case first_resolving slots key path of
        None \<Rightarrow>
          (if is_insert
           then (case tombstone of Some d \<Rightarrow> Inr d | None \<Rightarrow> Inl FullError)
           else Inl KeyError)
      | Some p \<Rightarrow>
          (if slots ! p = Empty
           then (if is_insert
                 then (case tombstone of Some d \<Rightarrow> Inr d | None \<Rightarrow> Inr p)
                 else Inl KeyError)
           else Inr p))"

definition probe_spec :: "'v slot list \<Rightarrow> string \<Rightarrow> bool \<Rightarrow> nat \<Rightarrow> nat \<Rightarrow> error + nat" where
  "probe_spec slots key is_insert start step =
     (let path = probe_path (length slots) (length slots) start step
      in probe_spec_on slots key is_insert path (first_tombstone slots key path))"

section \<open>Well-formed tables\<close>

text \<open>The path of a probe through a table, and the invariant of the tables the methods
  build: the lookup of every stored key resolves to the slot that holds it.\<close>

definition path_of :: "'v table \<Rightarrow> nat \<Rightarrow> nat \<Rightarrow> nat list" where
  "path_of t start step = probe_path (table_size t) (table_size t) start step"

definition table_inv :: "'v table \<Rightarrow> bool" where
  "table_inv t =
     (\<forall>i<table_size t. \<forall>k v. array t ! i = Occupied k v \<longrightarrow> hashy_probe t k False = Inr i)"

text \<open>The keys of the Occupied slots, in index order.\<close>

fun slot_keys :: "'v slot list \<Rightarrow> string list" where
  "slot_keys [] = []"
| "slot_keys (Occupied k v # ss) = k # slot_keys ss"
| "slot_keys (s # ss) = slot_keys ss"

text \<open>The tables a caller can hold: the constructor's, and those that \<^verbatim>\<open>__setitem__\<close>,
  \<^verbatim>\<open>__delitem__\<close> and \<^verbatim>\<open>_rehash\<close> leave, whether they return or raise. The other
  methods do not change the table.\<close>

inductive reachable :: "'v table \<Rightarrow> bool" where
  reachable_init: "init sizes = Inr t \<Longrightarrow> reachable t"
| reachable_setitem: "reachable t \<Longrightarrow> reachable (snd (setitem t key data))"
| reachable_delitem: "reachable t \<Longrightarrow> reachable (snd (delitem t key))"
| reachable_rehash: "reachable t \<Longrightarrow> reachable (snd (rehash t))"

text \<open>How a call can leave the capacity: as it was, or at a later entry of the
  schedule.\<close>

definition grown :: "'v table \<Rightarrow> 'v table \<Rightarrow> bool" where
  "grown t t' =
     (TABLE_SIZES t' = TABLE_SIZES t \<and> size_index t < size_index t' \<and>
      size_index t' < length (TABLE_SIZES t) \<and>
      table_size t' = TABLE_SIZES t ! size_index t')"

definition same_capacity :: "'v table \<Rightarrow> 'v table \<Rightarrow> bool" where
  "same_capacity t t' =
     (TABLE_SIZES t' = TABLE_SIZES t \<and> size_index t' = size_index t \<and>
      table_size t' = table_size t)"

text \<open>The entries of the Occupied slots, in index order.\<close>

fun slot_entries :: "'v slot list \<Rightarrow> (string \<times> 'v) list" where
  "slot_entries [] = []"
| "slot_entries (Occupied k v # ss) = (k, v) # slot_entries ss"
| "slot_entries (s # ss) = slot_entries ss"

text \<open>What a rehash that has replaced the array leaves, however it ends. The capacity is
  in step with \<^verbatim>\<open>size_index\<close>, or \<^verbatim>\<open>size_index\<close> has run off the end of the schedule with
  the capacity at its last entry; the array has no tombstone and \<^verbatim>\<open>count\<close> is the number
  of its entries.\<close>

definition in_step :: "'v table \<Rightarrow> bool" where
  "in_step t =
     (size_index t < length (TABLE_SIZES t) \<and> table_size t = TABLE_SIZES t ! size_index t)"

definition tidy :: "'v table \<Rightarrow> bool" where
  "tidy t = (Tombstone \<notin> set (array t) \<and> count t = int (length (slot_entries (array t))))"

definition settled :: "'v table \<Rightarrow> 'v table \<Rightarrow> bool" where
  "settled t t' =
     (TABLE_SIZES t' = TABLE_SIZES t \<and> size_index t \<le> size_index t' \<and>
      size_index t' \<le> length (TABLE_SIZES t) \<and>
      table_size t' = TABLE_SIZES t ! min (size_index t') (length (TABLE_SIZES t) - 1))"

section \<open>Concrete tables\<close>

text \<open>Tables with natural numbers as values, for the runs below: over the default
  schedule at its first and second capacity, over the schedule \<^verbatim>\<open>[5]\<close>, and over the
  schedule \<^verbatim>\<open>[1]\<close>, and over the schedule \<^verbatim>\<open>[3, 4]\<close>.\<close>

definition table5 :: "nat slot list \<Rightarrow> int \<Rightarrow> nat table" where
  "table5 slots n =
     \<lparr>TABLE_SIZES = DEFAULT_TABLE_SIZES, size_index = 0, array = slots, count = n\<rparr>"

definition table13 :: "nat slot list \<Rightarrow> int \<Rightarrow> nat table" where
  "table13 slots n =
     \<lparr>TABLE_SIZES = DEFAULT_TABLE_SIZES, size_index = 1, array = slots, count = n\<rparr>"

definition single5 :: "nat \<Rightarrow> nat slot list \<Rightarrow> int \<Rightarrow> nat table" where
  "single5 i slots n = \<lparr>TABLE_SIZES = [5], size_index = i, array = slots, count = n\<rparr>"

definition table1 :: "nat table" where
  "table1 = \<lparr>TABLE_SIZES = [1], size_index = 0, array = [Empty], count = 0\<rparr>"

definition pair34 :: "nat \<Rightarrow> nat slot list \<Rightarrow> int \<Rightarrow> nat table" where
  "pair34 i slots n = \<lparr>TABLE_SIZES = [3, 4], size_index = i, array = slots, count = n\<rparr>"

section \<open>Evaluating the methods on concrete tables\<close>

lemma ArrayR_5: "ArrayR 5 = [Empty, Empty, Empty, Empty, Empty]"
  by (simp add: ArrayR_def numeral_eq_Suc)

lemma ArrayR_13:
  "ArrayR 13 = [Empty, Empty, Empty, Empty, Empty, Empty, Empty, Empty, Empty, Empty, Empty,
     Empty, Empty]"
  by (simp add: ArrayR_def numeral_eq_Suc)

lemma ArrayR_3: "ArrayR 3 = [Empty, Empty, Empty]"
  by (simp add: ArrayR_def numeral_eq_Suc)

lemma ArrayR_4: "ArrayR 4 = [Empty, Empty, Empty, Empty]"
  by (simp add: ArrayR_def numeral_eq_Suc)

lemmas table_eval =
  setitem.simps rehash.simps hashy_probe_def hash_def hash2_def table_size_def store_def
  len_def load_exceeded_def HASH_BASE_def delitem_def getitem_def contains_def keys_def
  values_tbl_def table5_def table13_def single5_def table1_def init_def ArrayR_5 ArrayR_13

lemmas pair34_eval = table_eval pair34_def ArrayR_3 ArrayR_4

text \<open>The constructor yields these tables.\<close>

lemma init_table5: "init None = Inr (table5 [Empty, Empty, Empty, Empty, Empty] 0)"
  by (simp add: table_eval DEFAULT_TABLE_SIZES_def)

lemma init_single5: "init (Some [5]) = Inr (single5 0 [Empty, Empty, Empty, Empty, Empty] 0)"
  by (simp add: table_eval)

lemma init_table1: "init (Some [1]) = Inr table1"
  by (simp add: init_def table1_def ArrayR_def)

text \<open>Over the schedule \<^verbatim>\<open>[5]\<close>, three inserts fill the slots 2, 3 and 4.\<close>

lemma single5_run:
  "setitem (single5 0 [Empty, Empty, Empty, Empty, Empty] 0) ''a'' 0 =
     (None, single5 0 [Empty, Empty, Occupied ''a'' 0, Empty, Empty] 1)"
  "setitem (single5 0 [Empty, Empty, Occupied ''a'' 0, Empty, Empty] 1) ''b'' 1 =
     (None, single5 0 [Empty, Empty, Occupied ''a'' 0, Occupied ''b'' 1, Empty] 2)"
  "setitem (single5 0 [Empty, Empty, Occupied ''a'' 0, Occupied ''b'' 1, Empty] 2) ''c'' 2 =
     (None, single5 0 [Empty, Empty, Occupied ''a'' 0, Occupied ''b'' 1, Occupied ''c'' 2] 3)"
  by (simp_all add: table_eval)

text \<open>After the insert of \<^verbatim>\<open>d\<close> has raised, the caller can go on: the insert of \<^verbatim>\<open>e\<close>
  raises as well and leaves all five slots occupied.\<close>

lemma single5_run_after_full:
  "setitem
     (single5 1 [Occupied ''d'' 3, Empty, Occupied ''a'' 0, Occupied ''b'' 1, Occupied ''c'' 2] 4)
     ''e'' 4 =
     (Some FullError,
      single5 2 [Occupied ''d'' 3, Occupied ''e'' 4, Occupied ''a'' 0, Occupied ''b'' 1,
        Occupied ''c'' 2] 5)"
  by (simp add: table_eval)

text \<open>Over the schedule \<^verbatim>\<open>[3, 4]\<close>, with \<^verbatim>\<open>b\<close> and \<^verbatim>\<open>d\<close> stored, the insert of \<^verbatim>\<open>f\<close>
  rehashes into four slots; there the probe of \<^verbatim>\<open>b\<close> steps by 2 between the slots of
  \<^verbatim>\<open>f\<close> and \<^verbatim>\<open>d\<close> and raises table-full from inside the reinsertion loop.\<close>

lemma init_pair34: "init (Some [3, 4]) = Inr (pair34 0 [Empty, Empty, Empty] 0)"
  by (simp add: pair34_eval)

lemma pair34_run:
  "setitem (pair34 0 [Empty, Empty, Empty] 0) ''b'' 5 =
     (None, pair34 0 [Empty, Empty, Occupied ''b'' 5] 1)"
  "setitem (pair34 0 [Empty, Empty, Occupied ''b'' 5] 1) ''d'' 6 =
     (None, pair34 0 [Empty, Occupied ''d'' 6, Occupied ''b'' 5] 2)"
  "setitem (pair34 0 [Empty, Occupied ''d'' 6, Occupied ''b'' 5] 2) ''f'' 7 =
     (Some FullError, pair34 1 [Occupied ''d'' 6, Empty, Occupied ''f'' 7, Empty] 2)"
  "rehash (pair34 0 [Occupied ''f'' 7, Occupied ''d'' 6, Occupied ''b'' 5] 3) =
     (Some FullError, pair34 1 [Occupied ''d'' 6, Empty, Occupied ''f'' 7, Empty] 2)"
  "getitem (pair34 0 [Empty, Occupied ''d'' 6, Occupied ''b'' 5] 2) ''b'' = Inr 5"
  "getitem (pair34 1 [Occupied ''d'' 6, Empty, Occupied ''f'' 7, Empty] 2) ''b'' = Inl KeyError"
  by (simp_all add: pair34_eval)

section \<open>The probe loop and the path of a probe\<close>

lemma first_resolving_Cons:
  "first_resolving slots key (p # ps) =
     (if resolves slots key p then Some p else first_resolving slots key ps)"
  by (simp add: first_resolving_def)

lemma first_tombstone_Cons:
  "first_tombstone slots key (p # ps) =
     (if resolves slots key p then None
      else if slots ! p = Tombstone then Some p
      else first_tombstone slots key ps)"
  by (simp add: first_tombstone_def)

lemma probe_spec_on_Cons:
  "probe_spec_on slots key is_insert (p # ps) tombstone =
     (if resolves slots key p
      then (if slots ! p = Empty
            then (if is_insert
                  then (case tombstone of Some d \<Rightarrow> Inr d | None \<Rightarrow> Inr p)
                  else Inl KeyError)
            else Inr p)
      else probe_spec_on slots key is_insert ps tombstone)"
  by (simp add: probe_spec_on_def first_resolving_Cons)

text \<open>The loop with \<open>n\<close> iterations left, at a position and with a recorded tombstone,
  computes what the specification says of the rest of the path.\<close>

lemma probe_loop_spec_on:
  "probe_loop n slots key is_insert step position seen =
   probe_spec_on slots key is_insert (probe_path n (length slots) position step)
     (case seen of
        Some d \<Rightarrow> Some d
      | None \<Rightarrow> first_tombstone slots key (probe_path n (length slots) position step))"
proof (induction n arbitrary: position seen)
  case 0
  then show ?case
    by (cases seen) (simp_all add: probe_spec_on_def first_resolving_def first_tombstone_def)
next
  case (Suc n)
  let ?next = "(position + step) mod length slots"
  show ?case
  proof (cases "slots ! position")
    case Empty
    then have "resolves slots key position"
      by (simp add: resolves_def)
    with Empty show ?thesis
      by (cases seen) (simp_all add: probe_spec_on_Cons first_tombstone_Cons)
  next
    case Tombstone
    then have r: "\<not> resolves slots key position"
      by (simp add: resolves_def)
    have "probe_loop (Suc n) slots key is_insert step position seen =
        probe_loop n slots key is_insert step ?next
          (if seen = None then Some position else seen)"
      using Tombstone by simp
    also have "\<dots> = probe_spec_on slots key is_insert (probe_path n (length slots) ?next step)
        (if seen = None then Some position else seen)"
      by (subst Suc.IH) (cases seen; simp)
    finally show ?thesis
      using Tombstone r by (cases seen) (simp_all add: probe_spec_on_Cons first_tombstone_Cons)
  next
    case (Occupied k v)
    show ?thesis
    proof (cases "k = key")
      case True
      with Occupied have "resolves slots key position"
        by (simp add: resolves_def)
      with Occupied True show ?thesis
        by (simp add: probe_spec_on_Cons)
    next
      case False
      with Occupied have r: "\<not> resolves slots key position"
        by (simp add: resolves_def)
      have "probe_loop (Suc n) slots key is_insert step position seen =
          probe_loop n slots key is_insert step ?next seen"
        using Occupied False by simp
      then show ?thesis
        using Occupied r
        by (cases seen) (simp_all add: Suc.IH probe_spec_on_Cons first_tombstone_Cons)
    qed
  qed
qed

lemma length_probe_path: "length (probe_path n capacity position step) = n"
  by (induction n arbitrary: position) simp_all

section \<open>The hashes\<close>

lemma hash2_loop_bounds:
  "hash2_loop n key val = Inr s \<Longrightarrow> 1 \<le> s \<and> (2 \<le> n \<longrightarrow> val < n \<longrightarrow> s < n)"
  by (induction n key val rule: hash2_loop.induct) (auto split: if_splits)

lemma hash_loop_in_range:
  "2 \<le> n \<Longrightarrow> val < n \<Longrightarrow> \<exists>h. hash_loop n key val a = Inr h \<and> h < n"
  by (induction n key val a rule: hash_loop.induct) auto

lemma hash_loop_zero_division:
  "n < 2 \<Longrightarrow> key \<noteq> [] \<Longrightarrow> hash_loop n key val a = Inl ZeroDivisionError"
  by (cases key) auto

section \<open>Lookups after writes\<close>

lemma find_Some_split:
  "find P xs = Some x \<Longrightarrow> \<exists>as bs. xs = as @ x # bs \<and> P x \<and> (\<forall>a\<in>set as. \<not> P a)"
proof (induction xs)
  case Nil
  then show ?case by simp
next
  case (Cons y ys)
  show ?case
  proof (cases "P y")
    case True
    with Cons.prems have "y = x" by simp
    with True have "y # ys = [] @ x # ys \<and> P x \<and> (\<forall>a\<in>set []. \<not> P a)" by simp
    then show ?thesis by blast
  next
    case False
    with Cons obtain as bs where "ys = as @ x # bs" "P x" "\<forall>a\<in>set as. \<not> P a"
      by auto
    with False have "y # ys = (y # as) @ x # bs \<and> P x \<and> (\<forall>a\<in>set (y # as). \<not> P a)"
      by simp
    then show ?thesis by blast
  qed
qed

lemma find_split_Some:
  "P x \<Longrightarrow> \<forall>a\<in>set as. \<not> P a \<Longrightarrow> find P (as @ x # bs) = Some x"
  by (induction as) simp_all

lemma find_mono_Some:
  "find P xs = Some i \<Longrightarrow> (\<And>x. Q x \<Longrightarrow> P x) \<Longrightarrow> Q i \<Longrightarrow> find Q xs = Some i"
  by (induction xs) (auto split: if_splits)

lemma first_tombstone_split:
  assumes "first_tombstone slots key path = Some d"
  shows "\<exists>as bs. path = as @ d # bs \<and> slots ! d = Tombstone \<and>
           (\<forall>a\<in>set as. \<not> resolves slots key a \<and> a \<noteq> d)"
proof -
  let ?pre = "takeWhile (\<lambda>p. \<not> resolves slots key p) path"
  from assms obtain as bs where s: "?pre = as @ d # bs" "slots ! d = Tombstone"
      "\<forall>a\<in>set as. slots ! a \<noteq> Tombstone"
    unfolding first_tombstone_def by (blast dest: find_Some_split)
  have "\<forall>a\<in>set ?pre. \<not> resolves slots key a"
    by (auto dest: set_takeWhileD)
  with s have n: "\<forall>a\<in>set as. \<not> resolves slots key a \<and> a \<noteq> d"
    by auto
  have "path = ?pre @ dropWhile (\<lambda>p. \<not> resolves slots key p) path"
    by simp
  with s have "path = as @ d # (bs @ dropWhile (\<lambda>p. \<not> resolves slots key p) path)"
    by simp
  with s n show ?thesis by blast
qed

lemma probe_spec_on_lookup:
  "probe_spec_on slots key False path tomb = Inr p \<longleftrightarrow>
     first_resolving slots key path = Some p \<and> holds_key (slots ! p) key"
proof (cases "first_resolving slots key path")
  case None
  then show ?thesis by (simp add: probe_spec_on_def)
next
  case (Some q)
  then have "resolves slots key q"
    unfolding first_resolving_def by (blast dest: find_Some_split)
  with Some show ?thesis
    by (cases "slots ! q") (auto simp: probe_spec_on_def resolves_def)
qed

lemma probe_spec_on_insert:
  assumes "probe_spec_on slots key True path (first_tombstone slots key path) = Inr p"
  shows "\<exists>as bs. path = as @ p # bs \<and> (\<forall>a\<in>set as. \<not> resolves slots key a \<and> a \<noteq> p) \<and>
           (slots ! p = Empty \<or> slots ! p = Tombstone \<or> holds_key (slots ! p) key)"
proof -
  have direct: ?thesis if "first_resolving slots key path = Some p"
  proof -
    from that obtain as bs where "path = as @ p # bs" "resolves slots key p"
        "\<forall>a\<in>set as. \<not> resolves slots key a"
      unfolding first_resolving_def by (blast dest: find_Some_split)
    then have "path = as @ p # bs \<and> (\<forall>a\<in>set as. \<not> resolves slots key a \<and> a \<noteq> p) \<and>
           (slots ! p = Empty \<or> slots ! p = Tombstone \<or> holds_key (slots ! p) key)"
      by (auto simp: resolves_def)
    then show ?thesis by blast
  qed
  have tomb: ?thesis if "first_tombstone slots key path = Some p"
    using first_tombstone_split[OF that] by blast
  show ?thesis
  proof (cases "first_resolving slots key path")
    case None
    with assms have "first_tombstone slots key path = Some p"
      by (simp add: probe_spec_on_def split: option.splits)
    then show ?thesis by (rule tomb)
  next
    case (Some q)
    show ?thesis
    proof (cases "slots ! q = Empty")
      case False
      with Some assms have "q = p" by (simp add: probe_spec_on_def)
      with Some have "first_resolving slots key path = Some p" by simp
      then show ?thesis by (rule direct)
    next
      case True
      show ?thesis
      proof (cases "first_tombstone slots key path")
        case None
        with True Some assms have "q = p" by (simp add: probe_spec_on_def)
        with Some have "first_resolving slots key path = Some p" by simp
        then show ?thesis by (rule direct)
      next
        case (Some d)
        with True \<open>first_resolving slots key path = Some q\<close> assms have "d = p"
          by (simp add: probe_spec_on_def)
        with Some have "first_tombstone slots key path = Some p" by simp
        then show ?thesis by (rule tomb)
      qed
    qed
  qed
qed

lemma probe_path_in_range:
  "p \<in> set (probe_path n capacity start step) \<Longrightarrow> start < capacity \<Longrightarrow> p < capacity"
  by (induction n arbitrary: start) auto

lemma hash_loop_lt:
  "hash_loop n key val a = Inr h \<Longrightarrow> val < n \<Longrightarrow> h < n"
  by (induction n key val a rule: hash_loop.induct) (auto split: if_splits)

lemma hash_lt: "hash t key = Inr h \<Longrightarrow> 0 < table_size t \<Longrightarrow> h < table_size t"
  by (auto simp: hash_def dest: hash_loop_lt)

lemma hashy_probe_on_path:
  "hashy_probe t key is_insert = Inr p \<longleftrightarrow>
     (\<exists>start step. hash t key = Inr start \<and> hash2 t key = Inr step \<and>
        probe_spec_on (array t) key is_insert (path_of t start step)
          (first_tombstone (array t) key (path_of t start step)) = Inr p)"
  by (auto simp: hashy_probe_def probe_loop_spec_on path_of_def table_size_def
      split: sum.splits)

lemma same_size_hashes:
  "table_size t' = table_size t \<Longrightarrow> hash t' key = hash t key"
  "table_size t' = table_size t \<Longrightarrow> hash2 t' key = hash2 t key"
  "table_size t' = table_size t \<Longrightarrow> path_of t' start step = path_of t start step"
  by (simp_all add: hash_def hash2_def path_of_def)

lemma path_of_in_range:
  assumes "hash t key = Inr start" "p \<in> set (path_of t start step)"
  shows "p < table_size t"
proof -
  from assms(2) have "path_of t start step \<noteq> []" by auto
  then have "0 < table_size t"
    by (cases "table_size t") (simp_all add: path_of_def)
  with assms(1) have "start < table_size t" by (rule hash_lt)
  with assms(2) show ?thesis
    unfolding path_of_def by (rule probe_path_in_range)
qed

lemma lookup_found:
  assumes "hashy_probe t key False = Inr i"
  shows "i < table_size t" "\<exists>v. array t ! i = Occupied key v"
proof -
  from assms obtain start step where h: "hash t key = Inr start" "hash2 t key = Inr step"
    and f: "first_resolving (array t) key (path_of t start step) = Some i"
    and k: "holds_key (array t ! i) key"
    by (auto simp: hashy_probe_on_path probe_spec_on_lookup)
  from f have "i \<in> set (path_of t start step)"
    unfolding first_resolving_def by (auto dest: find_Some_split)
  with h(1) show "i < table_size t" by (rule path_of_in_range)
  from k show "\<exists>v. array t ! i = Occupied key v"
    by (cases "array t ! i") simp_all
qed

lemma lookup_is_insert_probe:
  assumes "hashy_probe t key False = Inr i"
  shows "hashy_probe t key True = Inr i"
proof -
  from assms obtain start step where h: "hash t key = Inr start" "hash2 t key = Inr step"
    and f: "first_resolving (array t) key (path_of t start step) = Some i"
    and k: "holds_key (array t ! i) key"
    by (auto simp: hashy_probe_on_path probe_spec_on_lookup)
  from k have "array t ! i \<noteq> Empty" by auto
  with f have "probe_spec_on (array t) key True (path_of t start step)
      (first_tombstone (array t) key (path_of t start step)) = Inr i"
    by (simp add: probe_spec_on_def)
  with h show ?thesis
    unfolding hashy_probe_on_path by blast
qed

lemma insert_probe_slot:
  assumes "hashy_probe t key True = Inr p"
  shows "p < table_size t"
    "array t ! p = Empty \<or> array t ! p = Tombstone \<or> holds_key (array t ! p) key"
proof -
  from assms obtain start step where h: "hash t key = Inr start" "hash2 t key = Inr step"
    and s: "probe_spec_on (array t) key True (path_of t start step)
      (first_tombstone (array t) key (path_of t start step)) = Inr p"
    unfolding hashy_probe_on_path by blast
  from probe_spec_on_insert[OF s] obtain as bs where
    p: "path_of t start step = as @ p # bs"
    and "array t ! p = Empty \<or> array t ! p = Tombstone \<or> holds_key (array t ! p) key"
    by blast
  then show "array t ! p = Empty \<or> array t ! p = Tombstone \<or> holds_key (array t ! p) key"
    by blast
  from p have "p \<in> set (path_of t start step)" by simp
  with h(1) show "p < table_size t" by (rule path_of_in_range)
qed

text \<open>Writing the key at the slot the insert probe resolved to.\<close>
lemma lookup_after_write:
  assumes "hashy_probe t key True = Inr p"
    and "array t' = (array t)[p := Occupied key data]"
  shows "hashy_probe t' key False = Inr p"
proof -
  from assms(2) have sz: "table_size t' = table_size t"
    by (simp add: table_size_def)
  from assms(1) obtain start step where h: "hash t key = Inr start" "hash2 t key = Inr step"
    and s: "probe_spec_on (array t) key True (path_of t start step)
      (first_tombstone (array t) key (path_of t start step)) = Inr p"
    unfolding hashy_probe_on_path by blast
  from probe_spec_on_insert[OF s] obtain as bs where
    p: "path_of t start step = as @ p # bs"
    and as: "\<forall>a\<in>set as. \<not> resolves (array t) key a \<and> a \<noteq> p"
    by blast
  from insert_probe_slot(1)[OF assms(1)] have lt: "p < length (array t)"
    by (simp add: table_size_def)
  with assms(2) have at: "array t' ! p = Occupied key data" by simp
  then have rp: "resolves (array t') key p" by (simp add: resolves_def)
  have "\<not> resolves (array t') key a" if "a \<in> set as" for a
  proof -
    from as that have a: "\<not> resolves (array t) key a" "a \<noteq> p" by auto
    from a(2) have "(array t)[p := Occupied key data] ! a = array t ! a" by simp
    with assms(2) a(1) show ?thesis by (simp add: resolves_def)
  qed
  then have "\<forall>a\<in>set as. \<not> resolves (array t') key a" by blast
  with rp have "find (resolves (array t') key) (as @ p # bs) = Some p"
    by (rule find_split_Some)
  with p at have "probe_spec_on (array t') key False (path_of t start step)
      (first_tombstone (array t') key (path_of t start step)) = Inr p"
    by (simp add: probe_spec_on_lookup first_resolving_def)
  with h show ?thesis
    unfolding hashy_probe_on_path by (simp add: same_size_hashes[OF sz])
qed

text \<open>Overwriting one slot with something that does not hold the key k.\<close>
lemma lookup_after_other_write:
  assumes "hashy_probe t k False = Inr i"
    and "array t' = (array t)[p := s]"
    and "\<not> holds_key s k" "s \<noteq> Empty"
    and "\<not> holds_key (array t ! p) k"
  shows "hashy_probe t' k False = Inr i"
proof -
  from assms(2) have sz: "table_size t' = table_size t"
    by (simp add: table_size_def)
  from assms(1) obtain start step where h: "hash t k = Inr start" "hash2 t k = Inr step"
    and f: "first_resolving (array t) k (path_of t start step) = Some i"
    and hk: "holds_key (array t ! i) k"
    by (auto simp: hashy_probe_on_path probe_spec_on_lookup)
  from hk assms(5) have ne: "i \<noteq> p" by auto
  with assms(2) hk have hk': "holds_key (array t' ! i) k" by simp
  then have q: "resolves (array t') k i" by (simp add: resolves_def)
  have mono: "resolves (array t) k x" if "resolves (array t') k x" for x
  proof (cases "x = p \<and> p < length (array t)")
    case True
    with assms(2) have "array t' ! x = s" by simp
    with that assms(3,4) show ?thesis by (simp add: resolves_def)
  next
    case False
    have "array t' ! x = array t ! x"
    proof (cases "x = p")
      case True
      with False have "length (array t) \<le> p" by simp
      then have "(array t)[p := s] = array t" by (rule list_update_beyond)
      with assms(2) show ?thesis by simp
    next
      case False
      then have "(array t)[p := s] ! x = array t ! x" by simp
      with assms(2) show ?thesis by simp
    qed
    with that show ?thesis by (simp add: resolves_def)
  qed
  from f have "find (resolves (array t') k) (path_of t start step) = Some i"
    unfolding first_resolving_def using mono q by (rule find_mono_Some)
  with hk' have "probe_spec_on (array t') k False (path_of t start step)
      (first_tombstone (array t') k (path_of t start step)) = Inr i"
    by (simp add: probe_spec_on_lookup first_resolving_def)
  with h show ?thesis
    unfolding hashy_probe_on_path by (simp add: same_size_hashes[OF sz])
qed

section \<open>The invariant\<close>

lemma array_store [simp]: "array (store t p key data) = (array t)[p := Occupied key data]"
  by (simp add: store_def)

lemma table_size_store [simp]: "table_size (store t p key data) = table_size t"
  by (simp add: table_size_def)

lemma getitem_iff:
  "getitem t k = Inr v \<longleftrightarrow> (\<exists>i. hashy_probe t k False = Inr i \<and> array t ! i = Occupied k v)"
proof
  assume g: "getitem t k = Inr v"
  then obtain i where i: "hashy_probe t k False = Inr i"
    by (auto simp: getitem_def split: sum.splits)
  from lookup_found(2)[OF i] obtain w where "array t ! i = Occupied k w" by blast
  with g i show "\<exists>i. hashy_probe t k False = Inr i \<and> array t ! i = Occupied k v"
    by (simp add: getitem_def)
next
  assume "\<exists>i. hashy_probe t k False = Inr i \<and> array t ! i = Occupied k v"
  then show "getitem t k = Inr v" by (auto simp: getitem_def)
qed

lemma getitem_stored: "getitem t k = Inr v \<Longrightarrow> Occupied k v \<in> set (array t)"
proof -
  assume "getitem t k = Inr v"
  then obtain i where i: "hashy_probe t k False = Inr i" "array t ! i = Occupied k v"
    unfolding getitem_iff by blast
  from lookup_found(1)[OF i(1)] have "i < length (array t)" by (simp add: table_size_def)
  then have "array t ! i \<in> set (array t)" by (rule nth_mem)
  with i show ?thesis by simp
qed

lemma getitem_store_same:
  assumes "hashy_probe t key True = Inr p"
  shows "getitem (store t p key data) key = Inr data"
proof -
  from assms have "hashy_probe (store t p key data) key False = Inr p"
    by (rule lookup_after_write) simp
  moreover from insert_probe_slot(1)[OF assms] have "array (store t p key data) ! p = Occupied key data"
    by (simp add: table_size_def)
  ultimately show ?thesis unfolding getitem_iff by blast
qed

lemma insert_probe_other_key:
  assumes "hashy_probe t key True = Inr p" "k \<noteq> key"
  shows "\<not> holds_key (array t ! p) k"
  using insert_probe_slot(2)[OF assms(1)] assms(2) by (cases "array t ! p") auto

lemma lookup_store_other:
  assumes "hashy_probe t key True = Inr p" "k \<noteq> key" "hashy_probe t k False = Inr i"
  shows "hashy_probe (store t p key data) k False = Inr i" "i \<noteq> p"
proof -
  from assms(1,2) have n: "\<not> holds_key (array t ! p) k" by (rule insert_probe_other_key)
  from assms(2) have "\<not> holds_key (Occupied key data) k" by simp
  with assms(3) array_store show "hashy_probe (store t p key data) k False = Inr i"
    using _ n by (rule lookup_after_other_write) simp
  from lookup_found(2)[OF assms(3)] n show "i \<noteq> p" by auto
qed

lemma getitem_store_other:
  assumes "hashy_probe t key True = Inr p" "k \<noteq> key" "getitem t k = Inr v"
  shows "getitem (store t p key data) k = Inr v"
proof -
  from assms(3) obtain i where i: "hashy_probe t k False = Inr i" "array t ! i = Occupied k v"
    unfolding getitem_iff by blast
  from lookup_store_other[OF assms(1,2) i(1)] i(2)
  have "hashy_probe (store t p key data) k False = Inr i \<and>
      array (store t p key data) ! i = Occupied k v"
    by simp
  then show ?thesis unfolding getitem_iff by blast
qed

lemma table_inv_store:
  assumes "table_inv t" "hashy_probe t key True = Inr p"
  shows "table_inv (store t p key data)"
  unfolding table_inv_def
proof (intro allI impI)
  fix i k v
  assume i: "i < table_size (store t p key data)"
    and o: "array (store t p key data) ! i = Occupied k v"
  show "hashy_probe (store t p key data) k False = Inr i"
  proof (cases "i = p")
    case True
    with i o have "k = key" by (simp add: table_size_def)
    with True assms(2) show ?thesis
      by (simp add: lookup_after_write)
  next
    case False
    with o have o': "array t ! i = Occupied k v" by simp
    with assms(1) i have l: "hashy_probe t k False = Inr i"
      by (simp add: table_inv_def)
    have "k \<noteq> key"
    proof
      assume "k = key"
      with l have "hashy_probe t key True = Inr i" by (simp add: lookup_is_insert_probe)
      with assms(2) False show False by simp
    qed
    with assms(2) show ?thesis using l by (rule lookup_store_other(1))
  qed
qed

lemma table_inv_delitem:
  assumes "table_inv t"
  shows "table_inv (snd (delitem t key))"
proof (cases "hashy_probe t key False")
  case (Inl e)
  with assms show ?thesis by (simp add: delitem_def)
next
  case (Inr p)
  let ?t' = "t\<lparr>array := (array t)[p := Tombstone], count := count t - 1\<rparr>"
  have a: "array ?t' = (array t)[p := Tombstone]" by simp
  have "table_inv ?t'"
    unfolding table_inv_def
  proof (intro allI impI)
    fix i k v
    assume i: "i < table_size ?t'" and o: "array ?t' ! i = Occupied k v"
    then have ne: "i \<noteq> p" by (auto simp: table_size_def)
    with o have o': "array t ! i = Occupied k v" by simp
    with assms i have l: "hashy_probe t k False = Inr i"
      by (simp add: table_inv_def table_size_def)
    with Inr ne have "k \<noteq> key" by auto
    with lookup_found(2)[OF Inr] have n: "\<not> holds_key (array t ! p) k" by auto
    from l a show "hashy_probe ?t' k False = Inr i"
      using _ _ n by (rule lookup_after_other_write) simp_all
  qed
  with Inr show ?thesis by (simp add: delitem_def)
qed

lemma table_inv_fresh: "array t = ArrayR n \<Longrightarrow> table_inv t"
  by (simp add: table_inv_def ArrayR_def table_size_def)

lemma hashy_probe_array:
  "array t' = array t \<Longrightarrow> hashy_probe t' k b = hashy_probe t k b"
  by (simp add: hashy_probe_def hash_def hash2_def table_size_def cong: sum.case_cong)

lemma table_inv_array: "array t' = array t \<Longrightarrow> table_inv t' = table_inv t"
  using hashy_probe_array[of t' t] by (simp add: table_inv_def table_size_def)

lemma getitem_array: "array t' = array t \<Longrightarrow> getitem t' k = getitem t k"
  using hashy_probe_array[of t' t] by (simp add: getitem_def cong: sum.case_cong)

lemma slot_keys_mem: "k \<in> set (slot_keys ss) \<longleftrightarrow> (\<exists>v. Occupied k v \<in> set ss)"
  by (induction ss rule: slot_keys.induct) auto

lemma distinct_slot_keys:
  "(\<And>i k v. i < length ss \<Longrightarrow> ss ! i = Occupied k v \<Longrightarrow> f k = i + off) \<Longrightarrow>
   distinct (slot_keys ss)"
proof (induction ss arbitrary: off)
  case Nil
  then show ?case by simp
next
  case (Cons s ss)
  have tl: "f k = i + Suc off" if "i < length ss" "ss ! i = Occupied k v" for i k v
    using Cons.prems[of "Suc i" k v] that by simp
  then have d: "distinct (slot_keys ss)" by (rule Cons.IH)
  show ?case
  proof (cases s)
    case (Occupied k v)
    with Cons.prems[of 0 k v] have f: "f k = off" by simp
    have "k \<notin> set (slot_keys ss)"
    proof
      assume "k \<in> set (slot_keys ss)"
      then obtain w where "Occupied k w \<in> set ss" unfolding slot_keys_mem by blast
      then obtain i where "i < length ss" "ss ! i = Occupied k w"
        by (auto simp: in_set_conv_nth)
      with tl have "f k = i + Suc off" by blast
      with f show False by simp
    qed
    with d Occupied show ?thesis by simp
  qed (simp_all add: d)
qed

lemma table_inv_distinct:
  assumes "table_inv t"
  shows "distinct (slot_keys (array t))"
proof (rule distinct_slot_keys[where f = "\<lambda>k. case hashy_probe t k False of Inr i \<Rightarrow> i | Inl e \<Rightarrow> 0" and off = 0])
  fix i k v
  assume "i < length (array t)" "array t ! i = Occupied k v"
  with assms have "hashy_probe t k False = Inr i"
    by (simp add: table_inv_def table_size_def)
  then show "(case hashy_probe t k False of Inr i \<Rightarrow> i | Inl e \<Rightarrow> 0) = i + 0" by simp
qed

lemma set_rehash_reinsert_inv:
  "table_inv t \<Longrightarrow>
     table_inv (snd (setitem t key data)) \<and>
     (fst (setitem t key data) = None \<longrightarrow>
        getitem (snd (setitem t key data)) key = Inr data \<and>
        (\<forall>k v. k \<noteq> key \<longrightarrow> getitem t k = Inr v \<longrightarrow>
           getitem (snd (setitem t key data)) k = Inr v))"
  "table_inv t \<Longrightarrow>
     table_inv (snd (rehash t)) \<and>
     (fst (rehash t) = None \<longrightarrow>
        (\<forall>k v. getitem t k = Inr v \<longrightarrow> getitem (snd (rehash t)) k = Inr v))"
  "table_inv t \<Longrightarrow> distinct (slot_keys items) \<Longrightarrow>
     table_inv (snd (reinsert items t)) \<and>
     (fst (reinsert items t) = None \<longrightarrow>
        (\<forall>k v. Occupied k v \<in> set items \<longrightarrow> getitem (snd (reinsert items t)) k = Inr v) \<and>
        (\<forall>k v. k \<notin> set (slot_keys items) \<longrightarrow> getitem t k = Inr v \<longrightarrow>
           getitem (snd (reinsert items t)) k = Inr v))"
proof (induction t key data and t and items t rule: setitem_rehash_reinsert.induct)
  case (1 t key data)
  show ?case
  proof (cases "hashy_probe t key True")
    case (Inl e)
    with 1 show ?thesis by (simp add: setitem.simps)
  next
    case (Inr p)
    let ?w = "store t p key data"
    from 1(2) Inr have w: "table_inv ?w" by (rule table_inv_store)
    from Inr have same: "getitem ?w key = Inr data" by (rule getitem_store_same)
    have other: "getitem ?w k = Inr v" if "k \<noteq> key" "getitem t k = Inr v" for k v
      using Inr that by (rule getitem_store_other)
    show ?thesis
    proof (cases "len ?w")
      case (Inl e)
      with Inr w show ?thesis by (simp add: setitem.simps)
    next
      case len: (Inr n)
      show ?thesis
      proof (cases "load_exceeded n (table_size ?w)")
        case False
        with Inr len w same other show ?thesis by (simp add: setitem.simps)
      next
        case True
        with Inr len have eq: "setitem t key data = rehash ?w" by (simp add: setitem.simps)
        from "1.IH"[OF Inr refl len True w] same other show ?thesis
          unfolding eq by blast
      qed
    qed
  qed
next
  case (2 t)
  let ?t1 = "t\<lparr>size_index := size_index t + 1\<rparr>"
  show ?case
  proof (cases "length (TABLE_SIZES ?t1) \<le> size_index ?t1")
    case True
    then have "rehash t = (Some FullError, ?t1)" by (simp add: rehash.simps)
    moreover have "table_inv ?t1 = table_inv t" by (rule table_inv_array) simp
    with 2(2) have "table_inv ?t1" by blast
    ultimately show ?thesis by simp
  next
    case False
    let ?new = "?t1\<lparr>array := ArrayR (TABLE_SIZES ?t1 ! size_index ?t1), count := 0\<rparr>"
    from False have eq: "rehash t = reinsert (array t) ?new"
      by (simp add: rehash.simps Let_def)
    have n: "table_inv ?new" by (rule table_inv_fresh) simp
    from 2(2) have d: "distinct (slot_keys (array t))" by (rule table_inv_distinct)
    from "2.IH"[OF refl refl False n d] show ?thesis
      unfolding eq by (blast dest: getitem_stored)
  qed
next
  case (3 t)
  then show ?case by simp
next
  case (4 items t)
  then show ?case by simp
next
  case (5 items t)
  then show ?case by simp
next
  case (6 key data items t)
  from 6(4) have nk: "key \<notin> set (slot_keys items)" and d: "distinct (slot_keys items)"
    by simp_all
  obtain x t' where s: "setitem t key data = (x, t')" by (cases "setitem t key data")
  from "6.IH"(1)[OF 6(3)] s have t': "table_inv t'"
    and ok: "x = None \<Longrightarrow> getitem t' key = Inr data"
    and keep: "\<And>k v. x = None \<Longrightarrow> k \<noteq> key \<Longrightarrow> getitem t k = Inr v \<Longrightarrow> getitem t' k = Inr v"
    by simp_all
  show ?case
  proof (cases x)
    case (Some e)
    with s t' show ?thesis by simp
  next
    case None
    with s have eq: "reinsert (Occupied key data # items) t = reinsert items t'" by simp
    from "6.IH"(2)[OF s[symmetric] None t' d]
    have r: "table_inv (snd (reinsert items t'))"
      and r1: "\<And>k v. fst (reinsert items t') = None \<Longrightarrow> Occupied k v \<in> set items \<Longrightarrow>
         getitem (snd (reinsert items t')) k = Inr v"
      and r2: "\<And>k v. fst (reinsert items t') = None \<Longrightarrow> k \<notin> set (slot_keys items) \<Longrightarrow>
         getitem t' k = Inr v \<Longrightarrow> getitem (snd (reinsert items t')) k = Inr v"
      by simp_all
    show ?thesis
      unfolding eq
    proof (intro conjI impI allI)
      show "table_inv (snd (reinsert items t'))" by (rule r)
    next
      fix k v
      assume f: "fst (reinsert items t') = None" and m: "Occupied k v \<in> set (Occupied key data # items)"
      show "getitem (snd (reinsert items t')) k = Inr v"
      proof (cases "Occupied k v \<in> set items")
        case True
        with f show ?thesis by (rule r1)
      next
        case False
        with m have "k = key" "v = data" by simp_all
        with f nk ok[OF None] show ?thesis by (simp add: r2)
      qed
    next
      fix k v
      assume f: "fst (reinsert items t') = None"
        and m: "k \<notin> set (slot_keys (Occupied key data # items))"
        and g: "getitem t k = Inr v"
      from m have "k \<noteq> key" "k \<notin> set (slot_keys items)" by simp_all
      with f g keep[OF None] show "getitem (snd (reinsert items t')) k = Inr v"
        by (simp add: r2)
    qed
  qed
qed

lemma reachable_table_inv: "reachable t \<Longrightarrow> table_inv t"
proof (induction rule: reachable.induct)
  case (reachable_init sizes t)
  then have "array t = ArrayR ((case sizes of None \<Rightarrow> DEFAULT_TABLE_SIZES | Some s \<Rightarrow> s) ! 0)"
    by (auto simp: init_def Let_def split: if_splits)
  then show ?case by (rule table_inv_fresh)
next
  case (reachable_setitem t key data)
  then show ?case by (simp add: set_rehash_reinsert_inv(1))
next
  case (reachable_delitem t key)
  then show ?case by (simp add: table_inv_delitem)
next
  case (reachable_rehash t)
  then show ?case by (simp add: set_rehash_reinsert_inv(2))
qed

section \<open>Deletion and rehash on reachable tables\<close>

lemma lookup_error_is_KeyError:
  assumes "hash t key = Inr start" "hash2 t key = Inr step" "hashy_probe t key False = Inl e"
  shows "e = KeyError"
  using assms
  by (simp add: hashy_probe_def probe_loop_spec_on probe_spec_on_def
      split: option.splits if_splits)

lemma delete_then_get:
  assumes "table_inv t" "delitem t key = (None, t')"
  shows "getitem t' key = Inl KeyError" "contains t' key = Inr False"
proof -
  from assms(2) obtain p where p: "hashy_probe t key False = Inr p"
    and t': "t' = t\<lparr>array := (array t)[p := Tombstone], count := count t - 1\<rparr>"
    by (auto simp: delitem_def split: sum.splits)
  from p obtain start step where h: "hash t key = Inr start" "hash2 t key = Inr step"
    unfolding hashy_probe_on_path by blast
  from t' have sz: "table_size t' = table_size t" by (simp add: table_size_def)
  from lookup_found(1)[OF p] have lt: "p < length (array t)" by (simp add: table_size_def)
  have "hashy_probe t' key False \<noteq> Inr j" for j
  proof
    assume j: "hashy_probe t' key False = Inr j"
    from lookup_found[OF j] sz obtain v where jl: "j < table_size t"
      and jo: "array t' ! j = Occupied key v"
      by auto
    from jo t' lt have ne: "j \<noteq> p" by auto
    with jo t' have "array t ! j = Occupied key v" by simp
    with assms(1) jl have "hashy_probe t key False = Inr j" by (simp add: table_inv_def)
    with p ne show False by simp
  qed
  then obtain e where e: "hashy_probe t' key False = Inl e"
    by (cases "hashy_probe t' key False") auto
  from h have "hash t' key = Inr start" "hash2 t' key = Inr step"
    by (simp_all add: same_size_hashes[OF sz])
  then have "e = KeyError" using e by (rule lookup_error_is_KeyError)
  with e show "getitem t' key = Inl KeyError" by (simp add: getitem_def)
  then show "contains t' key = Inr False" by (simp add: contains_def)
qed

lemma delete_then_get_reachable:
  "reachable t \<Longrightarrow> delitem t key = (None, t') \<Longrightarrow>
     getitem t' key = Inl KeyError \<and> contains t' key = Inr False"
  using delete_then_get[OF reachable_table_inv] by blast

lemma rehash_keeps_entries:
  "reachable t \<Longrightarrow> rehash t = (None, t') \<Longrightarrow> getitem t k = Inr v \<Longrightarrow> getitem t' k = Inr v"
  using set_rehash_reinsert_inv(2)[OF reachable_table_inv, of t] by simp

lemma set_keeps_other_entries:
  "reachable t \<Longrightarrow> setitem t key data = (None, t') \<Longrightarrow> k \<noteq> key \<Longrightarrow>
     getitem t k = Inr v \<Longrightarrow> getitem t' k = Inr v"
  using set_rehash_reinsert_inv(1)[OF reachable_table_inv, of t key data] by simp

section \<open>The capacity after set and rehash\<close>

lemma set_rehash_reinsert_capacity:
  "fst (setitem t key data) = None \<Longrightarrow>
     same_capacity t (snd (setitem t key data)) \<or> grown t (snd (setitem t key data))"
  "fst (rehash t) = None \<Longrightarrow> grown t (snd (rehash t))"
  "fst (reinsert items t) = None \<Longrightarrow>
     same_capacity t (snd (reinsert items t)) \<or> grown t (snd (reinsert items t))"
proof (induction t key data and t and items t rule: setitem_rehash_reinsert.induct)
  case (1 t key data)
  show ?case
  proof (cases "hashy_probe t key True")
    case (Inl e)
    with 1(2) show ?thesis by (simp add: setitem.simps)
  next
    case (Inr p)
    let ?w = "store t p key data"
    have sw: "same_capacity t ?w" by (simp add: same_capacity_def)
    show ?thesis
    proof (cases "len ?w")
      case (Inl e)
      with Inr 1(2) show ?thesis by (simp add: setitem.simps)
    next
      case len: (Inr n)
      show ?thesis
      proof (cases "load_exceeded n (table_size ?w)")
        case False
        with Inr len sw show ?thesis by (simp add: setitem.simps)
      next
        case True
        with Inr len have eq: "setitem t key data = rehash ?w" by (simp add: setitem.simps)
        with 1(2) have "fst (rehash ?w) = None" by simp
        from "1.IH"[OF Inr refl len True this] have "grown ?w (snd (rehash ?w))" .
        then show ?thesis unfolding eq by (simp add: grown_def)
      qed
    qed
  qed
next
  case (2 t)
  let ?t1 = "t\<lparr>size_index := size_index t + 1\<rparr>"
  show ?case
  proof (cases "length (TABLE_SIZES ?t1) \<le> size_index ?t1")
    case True
    then have "rehash t = (Some FullError, ?t1)" by (simp add: rehash.simps)
    with 2(2) show ?thesis by simp
  next
    case False
    let ?new = "?t1\<lparr>array := ArrayR (TABLE_SIZES ?t1 ! size_index ?t1), count := 0\<rparr>"
    from False have eq: "rehash t = reinsert (array t) ?new"
      by (simp add: rehash.simps Let_def)
    with 2(2) have "fst (reinsert (array t) ?new) = None" by simp
    from "2.IH"[OF refl refl False this]
    have "same_capacity ?new (snd (reinsert (array t) ?new)) \<or>
        grown ?new (snd (reinsert (array t) ?new))" .
    moreover have "grown t ?new"
      using False by (simp add: grown_def table_size_def ArrayR_def)
    ultimately show ?thesis
      unfolding eq by (auto simp: grown_def same_capacity_def)
  qed
next
  case (3 t)
  then show ?case by (simp add: same_capacity_def)
next
  case (4 items t)
  then show ?case by simp
next
  case (5 items t)
  then show ?case by simp
next
  case (6 key data items t)
  obtain x t' where s: "setitem t key data = (x, t')" by (cases "setitem t key data")
  show ?case
  proof (cases x)
    case (Some e)
    with s 6(3) show ?thesis by simp
  next
    case None
    with s have eq: "reinsert (Occupied key data # items) t = reinsert items t'" by simp
    with 6(3) have f: "fst (reinsert items t') = None" by simp
    from "6.IH"(1) s None have a: "same_capacity t t' \<or> grown t t'" by simp
    from "6.IH"(2)[OF s[symmetric] None f]
    have b: "same_capacity t' (snd (reinsert items t')) \<or> grown t' (snd (reinsert items t'))" .
    from a b show ?thesis
      unfolding eq by (auto simp: grown_def same_capacity_def)
  qed
qed

section \<open>What a rehash leaves when it raises\<close>

lemma slot_entries_mem: "(k, v) \<in> set (slot_entries ss) \<longleftrightarrow> Occupied k v \<in> set ss"
  by (induction ss rule: slot_entries.induct) auto

lemma slot_entries_update:
  "set (slot_entries (ss[p := Occupied k v])) \<subseteq> insert (k, v) (set (slot_entries ss))"
proof
  fix e
  assume "e \<in> set (slot_entries (ss[p := Occupied k v]))"
  moreover obtain k' v' where kv: "e = (k', v')" by (cases e)
  ultimately have e: "e = (k', v')" "Occupied k' v' \<in> set (ss[p := Occupied k v])"
    by (simp_all add: slot_entries_mem)
  from e(2) set_update_subset_insert[of ss p "Occupied k v"]
  have "Occupied k' v' = Occupied k v \<or> Occupied k' v' \<in> set ss" by blast
  with e(1) show "e \<in> insert (k, v) (set (slot_entries ss))"
    by (auto simp: slot_entries_mem)
qed

lemma slot_entries_ArrayR [simp]: "slot_entries (ArrayR n) = []"
  unfolding ArrayR_def by (induction n) simp_all

lemma set_rehash_reinsert_entries:
  "set (slot_entries (array (snd (setitem t key data)))) \<subseteq>
     insert (key, data) (set (slot_entries (array t)))"
  "set (slot_entries (array (snd (rehash t)))) \<subseteq> set (slot_entries (array t))"
  "set (slot_entries (array (snd (reinsert items t)))) \<subseteq>
     set (slot_entries items) \<union> set (slot_entries (array t))"
proof (induction t key data and t and items t rule: setitem_rehash_reinsert.induct)
  case (1 t key data)
  show ?case
  proof (cases "hashy_probe t key True")
    case (Inl e)
    then show ?thesis by (auto simp: setitem.simps)
  next
    case (Inr p)
    let ?w = "store t p key data"
    have w: "set (slot_entries (array ?w)) \<subseteq> insert (key, data) (set (slot_entries (array t)))"
      by (simp add: slot_entries_update)
    show ?thesis
    proof (cases "len ?w")
      case (Inl e)
      with Inr w show ?thesis by (simp add: setitem.simps)
    next
      case len: (Inr n)
      show ?thesis
      proof (cases "load_exceeded n (table_size ?w)")
        case False
        with Inr len w show ?thesis by (simp add: setitem.simps)
      next
        case True
        with Inr len have eq: "setitem t key data = rehash ?w" by (simp add: setitem.simps)
        from "1.IH"[OF Inr refl len True] w show ?thesis
          unfolding eq by blast
      qed
    qed
  qed
next
  case (2 t)
  let ?t1 = "t\<lparr>size_index := size_index t + 1\<rparr>"
  show ?case
  proof (cases "length (TABLE_SIZES ?t1) \<le> size_index ?t1")
    case True
    then have "rehash t = (Some FullError, ?t1)" by (simp add: rehash.simps)
    then show ?thesis by simp
  next
    case False
    let ?new = "?t1\<lparr>array := ArrayR (TABLE_SIZES ?t1 ! size_index ?t1), count := 0\<rparr>"
    from False have eq: "rehash t = reinsert (array t) ?new"
      by (simp add: rehash.simps Let_def)
    from "2.IH"[OF refl refl False] show ?thesis
      unfolding eq by simp
  qed
next
  case (3 t)
  then show ?case by simp
next
  case (4 items t)
  then show ?case by simp
next
  case (5 items t)
  then show ?case by simp
next
  case (6 key data items t)
  obtain x t' where s: "setitem t key data = (x, t')" by (cases "setitem t key data")
  from "6.IH"(1) s
  have a: "set (slot_entries (array t')) \<subseteq> insert (key, data) (set (slot_entries (array t)))"
    by simp
  show ?case
  proof (cases x)
    case (Some e)
    with s a show ?thesis by auto
  next
    case None
    with s have eq: "reinsert (Occupied key data # items) t = reinsert items t'" by simp
    from "6.IH"(2)[OF s[symmetric] None] a show ?thesis
      unfolding eq by auto
  qed
qed

lemma length_slot_entries_update:
  "p < length ss \<Longrightarrow> ss ! p \<noteq> Tombstone \<Longrightarrow>
   length (slot_entries (ss[p := Occupied k v])) =
     (if ss ! p = Empty then Suc (length (slot_entries ss)) else length (slot_entries ss))"
proof (induction ss arbitrary: p)
  case Nil
  then show ?case by simp
next
  case (Cons s ss)
  show ?case
  proof (cases p)
    case 0
    with Cons.prems show ?thesis by (cases s) simp_all
  next
    case (Suc q)
    with Cons.prems have "q < length ss" "ss ! q \<noteq> Tombstone" by simp_all
    then have "length (slot_entries (ss[q := Occupied k v])) =
        (if ss ! q = Empty then Suc (length (slot_entries ss)) else length (slot_entries ss))"
      by (rule Cons.IH)
    with Suc show ?thesis by (cases s) simp_all
  qed
qed

lemma tidy_store:
  assumes "tidy t" "hashy_probe t key True = Inr p"
  shows "tidy (store t p key data)"
proof -
  from insert_probe_slot(1)[OF assms(2)] have lt: "p < length (array t)"
    by (simp add: table_size_def)
  then have "array t ! p \<in> set (array t)" by (rule nth_mem)
  with assms(1) have nt: "array t ! p \<noteq> Tombstone" by (auto simp: tidy_def)
  have "set ((array t)[p := Occupied key data]) \<subseteq> insert (Occupied key data) (set (array t))"
    by (rule set_update_subset_insert)
  with assms(1) have a: "Tombstone \<notin> set (array (store t p key data))"
    by (auto simp: tidy_def)
  from assms(1) length_slot_entries_update[OF lt nt, of key data]
  have "count (store t p key data) = int (length (slot_entries (array (store t p key data))))"
    by (simp add: store_def tidy_def)
  with a show ?thesis by (simp add: tidy_def)
qed

lemma tidy_fresh: "array t = ArrayR n \<Longrightarrow> count t = 0 \<Longrightarrow> tidy t"
  by (simp add: tidy_def) (simp add: ArrayR_def)

lemma settled_refl: "in_step t \<Longrightarrow> settled t t"
  by (auto simp: in_step_def settled_def)

lemma settled_same_fields:
  "settled t r \<Longrightarrow> TABLE_SIZES t = TABLE_SIZES s \<Longrightarrow> size_index s \<le> size_index t \<Longrightarrow>
   settled s r"
  by (simp add: settled_def)

lemma in_step_store: "in_step (store t p key data) = in_step t"
  by (simp add: in_step_def)

lemma set_rehash_reinsert_settled:
  "in_step t \<Longrightarrow> tidy t \<Longrightarrow>
     settled t (snd (setitem t key data)) \<and> tidy (snd (setitem t key data)) \<and>
     (fst (setitem t key data) = None \<longrightarrow> in_step (snd (setitem t key data)))"
  "in_step t \<Longrightarrow> tidy t \<Longrightarrow>
     settled t (snd (rehash t)) \<and> size_index t < size_index (snd (rehash t)) \<and>
     tidy (snd (rehash t)) \<and> (fst (rehash t) = None \<longrightarrow> in_step (snd (rehash t)))"
  "in_step t \<Longrightarrow> tidy t \<Longrightarrow>
     settled t (snd (reinsert items t)) \<and> tidy (snd (reinsert items t)) \<and>
     (fst (reinsert items t) = None \<longrightarrow> in_step (snd (reinsert items t)))"
proof (induction t key data and t and items t rule: setitem_rehash_reinsert.induct)
  case (1 t key data)
  from 1(2) have st: "settled t t" by (rule settled_refl)
  show ?case
  proof (cases "hashy_probe t key True")
    case (Inl e)
    with 1(3) st show ?thesis by (simp add: setitem.simps)
  next
    case (Inr p)
    let ?w = "store t p key data"
    from 1(2) have iw: "in_step ?w" by (simp add: in_step_store)
    from 1(3) Inr have tw: "tidy ?w" by (rule tidy_store)
    from iw have sw: "settled t ?w"
      by (auto simp: in_step_def settled_def)
    show ?thesis
    proof (cases "len ?w")
      case (Inl e)
      with Inr sw tw show ?thesis by (simp add: setitem.simps)
    next
      case len: (Inr n)
      show ?thesis
      proof (cases "load_exceeded n (table_size ?w)")
        case False
        with Inr len sw tw iw show ?thesis by (simp add: setitem.simps)
      next
        case True
        with Inr len have eq: "setitem t key data = rehash ?w" by (simp add: setitem.simps)
        from "1.IH"[OF Inr refl len True iw tw]
        have r: "settled ?w (snd (rehash ?w))" "tidy (snd (rehash ?w))"
          "fst (rehash ?w) = None \<longrightarrow> in_step (snd (rehash ?w))"
          by simp_all
        from r(1) have "settled t (snd (rehash ?w))" by (rule settled_same_fields) simp_all
        with r(2,3) show ?thesis unfolding eq by simp
      qed
    qed
  qed
next
  case (2 t)
  let ?t1 = "t\<lparr>size_index := size_index t + 1\<rparr>"
  show ?case
  proof (cases "length (TABLE_SIZES ?t1) \<le> size_index ?t1")
    case True
    then have eq: "rehash t = (Some FullError, ?t1)" by (simp add: rehash.simps)
    from True 2(2) have l: "length (TABLE_SIZES t) = Suc (size_index t)"
      by (simp add: in_step_def)
    then have m: "min (size_index ?t1) (length (TABLE_SIZES t) - 1) = size_index t"
      and b: "size_index ?t1 \<le> length (TABLE_SIZES t)"
      by simp_all
    from 2(2) have ts: "table_size ?t1 = TABLE_SIZES t ! size_index t"
      unfolding in_step_def table_size_def by simp
    have "settled t ?t1"
      unfolding settled_def m ts using b by simp
    moreover from 2(3) have "tidy ?t1" by (simp add: tidy_def)
    ultimately show ?thesis unfolding eq by simp
  next
    case False
    let ?new = "?t1\<lparr>array := ArrayR (TABLE_SIZES ?t1 ! size_index ?t1), count := 0\<rparr>"
    from False have eq: "rehash t = reinsert (array t) ?new"
      by (simp add: rehash.simps Let_def)
    from False have i: "in_step ?new"
      by (simp add: in_step_def table_size_def ArrayR_def)
    have ti: "tidy ?new" by (rule tidy_fresh) simp_all
    from "2.IH"[OF refl refl False i ti]
    have r: "settled ?new (snd (reinsert (array t) ?new))"
      "tidy (snd (reinsert (array t) ?new))"
      "fst (reinsert (array t) ?new) = None \<longrightarrow> in_step (snd (reinsert (array t) ?new))"
      by simp_all
    from r(1) have "settled t (snd (reinsert (array t) ?new))"
      by (rule settled_same_fields) simp_all
    moreover from r(1) have "size_index t < size_index (snd (reinsert (array t) ?new))"
      by (simp add: settled_def)
    ultimately show ?thesis using r(2,3) unfolding eq by simp
  qed
next
  case (3 t)
  then show ?case by (simp add: settled_refl)
next
  case (4 items t)
  then show ?case by simp
next
  case (5 items t)
  then show ?case by (simp add: settled_refl)
next
  case (6 key data items t)
  obtain x t' where s: "setitem t key data = (x, t')" by (cases "setitem t key data")
  from "6.IH"(1)[OF 6(3,4)] s
  have a: "settled t t'" "tidy t'" "x = None \<longrightarrow> in_step t'"
    by simp_all
  show ?case
  proof (cases x)
    case (Some e)
    with s a show ?thesis by simp
  next
    case None
    with s have eq: "reinsert (Occupied key data # items) t = reinsert items t'" by simp
    from a(3) None have i: "in_step t'" by simp
    from "6.IH"(2)[OF s[symmetric] None i a(2)]
    have r: "settled t' (snd (reinsert items t'))" "tidy (snd (reinsert items t'))"
      "fst (reinsert items t') = None \<longrightarrow> in_step (snd (reinsert items t'))"
      by simp_all
    from a(1) have f: "TABLE_SIZES t' = TABLE_SIZES t" "size_index t \<le> size_index t'"
      by (simp_all add: settled_def)
    from r(1) f have "settled t (snd (reinsert items t'))"
      by (rule settled_same_fields)
    with r(2,3) show ?thesis unfolding eq by simp
  qed
qed

section \<open>Runs on the default schedule\<close>

lemma table5_run:
  "setitem (table5 [Empty, Empty, Empty, Empty, Empty] 0) ''a'' 0 =
     (None, table5 [Empty, Empty, Occupied ''a'' 0, Empty, Empty] 1)"
  "setitem (table5 [Empty, Empty, Occupied ''a'' 0, Empty, Empty] 1) ''b'' 1 =
     (None, table5 [Empty, Empty, Occupied ''a'' 0, Occupied ''b'' 1, Empty] 2)"
  "setitem (table5 [Empty, Empty, Occupied ''a'' 0, Occupied ''b'' 1, Empty] 2) ''c'' 2 =
     (None, table5 [Empty, Empty, Occupied ''a'' 0, Occupied ''b'' 1, Occupied ''c'' 2] 3)"
  by (simp_all add: table_eval)

lemma table5_run_rehash:
  "setitem (table5 [Empty, Empty, Occupied ''a'' 0, Occupied ''b'' 1, Occupied ''c'' 2] 3)
     ''d'' 3 =
     (None, table13 [Empty, Empty, Empty, Empty, Empty, Empty, Occupied ''a'' 0,
        Occupied ''b'' 1, Occupied ''c'' 2, Occupied ''d'' 3, Empty, Empty, Empty] 4)"
  by (simp add: table_eval DEFAULT_TABLE_SIZES_def)

lemma reachable_table5_abc:
  "reachable (table5 [Empty, Empty, Occupied ''a'' 0, Occupied ''b'' 1, Occupied ''c'' 2] 3)"
proof -
  have "reachable (table5 [Empty, Empty, Empty, Empty, Empty] 0)"
    using init_table5 by (rule reachable_init)
  from reachable_setitem[OF this, of "''a''" 0]
  have "reachable (table5 [Empty, Empty, Occupied ''a'' 0, Empty, Empty] 1)"
    unfolding table5_run snd_conv .
  from reachable_setitem[OF this, of "''b''" 1]
  have "reachable (table5 [Empty, Empty, Occupied ''a'' 0, Occupied ''b'' 1, Empty] 2)"
    unfolding table5_run snd_conv .
  from reachable_setitem[OF this, of "''c''" 2]
  show ?thesis
    unfolding table5_run snd_conv .
qed

section \<open>Claim C1: the count\<close>

text \<open>
  Claim C1: \<^verbatim>\<open>length()\<close> equals the number of live keys at every observation point; a
  \<^verbatim>\<open>set\<close> whose probe resolves to an Empty or Tombstone slot increments \<^verbatim>\<open>count\<close>.

  The code increments \<^verbatim>\<open>count\<close> only when the resolved slot is \<^verbatim>\<open>None\<close>. On the default
  table, insert \<^verbatim>\<open>x\<close>, delete it and insert it again: the probe of the second insert
  resolves to the Tombstone in slot 0, the key is stored there, and \<^verbatim>\<open>count\<close> stays 0
  while the table holds the one live key \<^verbatim>\<open>x\<close>.
\<close>

theorem count_stays_on_tombstone_reuse:
  "init None = Inr (table5 [Empty, Empty, Empty, Empty, Empty] 0) \<and>
   setitem (table5 [Empty, Empty, Empty, Empty, Empty] 0) ''x'' 1 =
     (None, table5 [Occupied ''x'' 1, Empty, Empty, Empty, Empty] 1) \<and>
   delitem (table5 [Occupied ''x'' 1, Empty, Empty, Empty, Empty] 1) ''x'' =
     (None, table5 [Tombstone, Empty, Empty, Empty, Empty] 0) \<and>
   hashy_probe (table5 [Tombstone, Empty, Empty, Empty, Empty] 0) ''x'' True = Inr 0 \<and>
   setitem (table5 [Tombstone, Empty, Empty, Empty, Empty] 0) ''x'' 2 =
     (None, table5 [Occupied ''x'' 2, Empty, Empty, Empty, Empty] 0) \<and>
   len (table5 [Occupied ''x'' 2, Empty, Empty, Empty, Empty] 0) = Inr 0 \<and>
   keys (table5 [Occupied ''x'' 2, Empty, Empty, Empty, Empty] 0) = Inr [''x'']"
  by (simp add: init_table5) (simp add: table_eval)

section \<open>Claim C2: set followed by get\<close>

text \<open>
  Claim C2: for every key \<open>k\<close> and value \<open>v\<close> and every table state in which
  \<^verbatim>\<open>set(k, v)\<close> completes, a subsequent \<^verbatim>\<open>get(k)\<close> on the resulting table returns \<open>v\<close>.

  The table states are those a caller can reach from the constructor; the call
  completes when it returns without an exception, with or without rehashes on the way.
\<close>

theorem set_then_get:
  "reachable t \<Longrightarrow> setitem t key data = (None, t') \<Longrightarrow> getitem t' key = Inr data"
  using set_rehash_reinsert_inv(1)[OF reachable_table_inv, of t key data] by simp

theorem set_then_get_witness:
  "reachable (table5 [Empty, Empty, Occupied ''a'' 0, Occupied ''b'' 1, Occupied ''c'' 2] 3) \<and>
   setitem (table5 [Empty, Empty, Occupied ''a'' 0, Occupied ''b'' 1, Occupied ''c'' 2] 3)
     ''d'' 3 =
     (None, table13 [Empty, Empty, Empty, Empty, Empty, Empty, Occupied ''a'' 0,
        Occupied ''b'' 1, Occupied ''c'' 2, Occupied ''d'' 3, Empty, Empty, Empty] 4) \<and>
   getitem (table13 [Empty, Empty, Empty, Empty, Empty, Empty, Occupied ''a'' 0,
        Occupied ''b'' 1, Occupied ''c'' 2, Occupied ''d'' 3, Empty, Empty, Empty] 4) ''d'' =
     Inr 3"
  using set_then_get [OF reachable_table5_abc table5_run_rehash]
    reachable_table5_abc table5_run_rehash by simp

section \<open>Claim C3: deletion\<close>

text \<open>
  Claim C3: after \<^verbatim>\<open>delete(k)\<close> on a present key, \<^verbatim>\<open>get(k)\<close> fails with key-not-found and
  \<^verbatim>\<open>contains(k)\<close> is false; a subsequent \<^verbatim>\<open>set(k, v2)\<close> succeeds and \<^verbatim>\<open>get(k)\<close> returns
  \<^verbatim>\<open>v2\<close>.

  On every reachable table the first half holds (\<open>delete_then_get_reachable\<close>). The
  second half does not: the run of C1 goes on from the table that holds \<^verbatim>\<open>x\<close> with
  \<^verbatim>\<open>count\<close> 0. The delete
  succeeds and makes \<^verbatim>\<open>count\<close> negative; \<^verbatim>\<open>get\<close> and \<^verbatim>\<open>contains\<close> answer as claimed. The
  next insert of \<^verbatim>\<open>x\<close> reuses the Tombstone, leaves \<^verbatim>\<open>count\<close> at -1, stores the entry,
  and then \<^verbatim>\<open>len(self)\<close> raises \<^verbatim>\<open>ValueError\<close>, as Python's \<^verbatim>\<open>len\<close> does when
  \<^verbatim>\<open>__len__\<close> returns a negative number: the insert does not succeed.
\<close>

theorem set_after_second_delete_raises:
  "init None = Inr (table5 [Empty, Empty, Empty, Empty, Empty] 0) \<and>
   setitem (table5 [Empty, Empty, Empty, Empty, Empty] 0) ''x'' 1 =
     (None, table5 [Occupied ''x'' 1, Empty, Empty, Empty, Empty] 1) \<and>
   delitem (table5 [Occupied ''x'' 1, Empty, Empty, Empty, Empty] 1) ''x'' =
     (None, table5 [Tombstone, Empty, Empty, Empty, Empty] 0) \<and>
   setitem (table5 [Tombstone, Empty, Empty, Empty, Empty] 0) ''x'' 2 =
     (None, table5 [Occupied ''x'' 2, Empty, Empty, Empty, Empty] 0) \<and>
   getitem (table5 [Occupied ''x'' 2, Empty, Empty, Empty, Empty] 0) ''x'' = Inr 2 \<and>
   delitem (table5 [Occupied ''x'' 2, Empty, Empty, Empty, Empty] 0) ''x'' =
     (None, table5 [Tombstone, Empty, Empty, Empty, Empty] (- 1)) \<and>
   getitem (table5 [Tombstone, Empty, Empty, Empty, Empty] (- 1)) ''x'' = Inl KeyError \<and>
   contains (table5 [Tombstone, Empty, Empty, Empty, Empty] (- 1)) ''x'' = Inr False \<and>
   setitem (table5 [Tombstone, Empty, Empty, Empty, Empty] (- 1)) ''x'' 3 =
     (Some ValueError, table5 [Occupied ''x'' 3, Empty, Empty, Empty, Empty] (- 1))"
  by (simp add: init_table5) (simp add: table_eval)

section \<open>Claim C4: table-full\<close>

text \<open>
  Claim C4, as amended: whenever \<^verbatim>\<open>set\<close> raises table-full, either its own probe found
  no slot and the table is unchanged, or it had written the entry, with the count of
  that write, and the rehash it then called on the written table raised. Whenever
  \<^verbatim>\<open>rehash\<close> raises table-full, either the schedule was exhausted when it was entered,
  and the slots, the count and the capacity are as on entry with \<^verbatim>\<open>size_index\<close> advanced
  by one; or the schedule is unchanged, \<^verbatim>\<open>size_index\<close> has advanced, at most to the end of
  the schedule, the array has been replaced by one of the size of a later schedule
  entry, which has no tombstone and holds only entries of the old array, not
  necessarily all of them, and \<^verbatim>\<open>count\<close> is the number of the entries it holds.
\<close>

theorem table_full_leaves_table:
  "(hashy_probe t key True = Inl FullError \<longrightarrow> setitem t key data = (Some FullError, t)) \<and>
   (length (TABLE_SIZES t) \<le> Suc (size_index t) \<longrightarrow>
      rehash t = (Some FullError, t\<lparr>size_index := Suc (size_index t)\<rparr>)) \<and>
   (hashy_probe t key True = Inr position \<and>
    load_exceeded (count (store t position key data)) (table_size t) \<and>
    length (TABLE_SIZES t) \<le> Suc (size_index t) \<longrightarrow>
      setitem t key data =
        (Some FullError, (store t position key data)\<lparr>size_index := Suc (size_index t)\<rparr>)) \<and>
   (fst (setitem t key data) = Some FullError \<longrightarrow>
      (case hashy_probe t key True of
         Inl e \<Rightarrow> e = FullError \<and> snd (setitem t key data) = t
       | Inr p \<Rightarrow>
           load_exceeded (count (store t p key data)) (table_size t) \<and>
           setitem t key data = rehash (store t p key data))) \<and>
   (fst (rehash t) = Some FullError \<and> Suc (size_index t) < length (TABLE_SIZES t) \<longrightarrow>
      TABLE_SIZES (snd (rehash t)) = TABLE_SIZES t \<and>
      size_index t < size_index (snd (rehash t)) \<and>
      size_index (snd (rehash t)) \<le> length (TABLE_SIZES t) \<and>
      table_size (snd (rehash t)) =
        TABLE_SIZES t ! min (size_index (snd (rehash t))) (length (TABLE_SIZES t) - 1) \<and>
      Tombstone \<notin> set (array (snd (rehash t))) \<and>
      set (slot_entries (array (snd (rehash t)))) \<subseteq> set (slot_entries (array t)) \<and>
      count (snd (rehash t)) = int (length (slot_entries (array (snd (rehash t))))))"
proof (intro conjI impI)
  assume "hashy_probe t key True = Inl FullError"
  then show "setitem t key data = (Some FullError, t)"
    by (simp add: setitem.simps)
next
  assume "length (TABLE_SIZES t) \<le> Suc (size_index t)"
  then show "rehash t = (Some FullError, t\<lparr>size_index := Suc (size_index t)\<rparr>)"
    by (simp add: rehash.simps)
next
  assume "hashy_probe t key True = Inr position \<and>
    load_exceeded (count (store t position key data)) (table_size t) \<and>
    length (TABLE_SIZES t) \<le> Suc (size_index t)"
  then show "setitem t key data =
      (Some FullError, (store t position key data)\<lparr>size_index := Suc (size_index t)\<rparr>)"
    by (auto simp: setitem.simps rehash.simps Let_def len_def load_exceeded_def)
next
  assume f: "fst (setitem t key data) = Some FullError"
  show "case hashy_probe t key True of
         Inl e \<Rightarrow> e = FullError \<and> snd (setitem t key data) = t
       | Inr p \<Rightarrow>
           load_exceeded (count (store t p key data)) (table_size t) \<and>
           setitem t key data = rehash (store t p key data)"
  proof (cases "hashy_probe t key True")
    case (Inl e)
    with f show ?thesis by (simp add: setitem.simps)
  next
    case (Inr p)
    with f show ?thesis
      by (auto simp: setitem.simps Let_def len_def split: if_splits)
  qed
next
  assume a: "fst (rehash t) = Some FullError \<and> Suc (size_index t) < length (TABLE_SIZES t)"
  let ?new = "t\<lparr>size_index := Suc (size_index t),
    array := ArrayR (TABLE_SIZES t ! Suc (size_index t)), count := 0\<rparr>"
  let ?r = "snd (rehash t)"
  from a have eq: "rehash t = reinsert (array t) ?new"
    by (simp add: rehash.simps Let_def)
  from a have i: "in_step ?new"
    by (simp add: in_step_def table_size_def ArrayR_def)
  have ti: "tidy ?new" by (rule tidy_fresh) simp_all
  from set_rehash_reinsert_settled(3)[OF i ti, of "array t"]
  have s: "settled ?new ?r" and tr: "tidy ?r"
    unfolding eq by simp_all
  from s show "TABLE_SIZES ?r = TABLE_SIZES t" by (simp add: settled_def)
  from s show "size_index t < size_index ?r" by (simp add: settled_def)
  from s show "size_index ?r \<le> length (TABLE_SIZES t)" by (simp add: settled_def)
  from s show "table_size ?r = TABLE_SIZES t ! min (size_index ?r) (length (TABLE_SIZES t) - 1)"
    by (simp add: settled_def)
  from tr show "Tombstone \<notin> set (array ?r)" by (simp add: tidy_def)
  show "set (slot_entries (array ?r)) \<subseteq> set (slot_entries (array t))"
    by (rule set_rehash_reinsert_entries(2))
  from tr show "count ?r = int (length (slot_entries (array ?r)))" by (simp add: tidy_def)
qed

theorem table_full_leaves_table_witness:
  "hashy_probe
     (single5 2 [Occupied ''d'' 3, Occupied ''e'' 4, Occupied ''a'' 0, Occupied ''b'' 1,
        Occupied ''c'' 2] 5) ''f'' True = Inl FullError \<and>
   setitem
     (single5 2 [Occupied ''d'' 3, Occupied ''e'' 4, Occupied ''a'' 0, Occupied ''b'' 1,
        Occupied ''c'' 2] 5) ''f'' 5 =
     (Some FullError,
      single5 2 [Occupied ''d'' 3, Occupied ''e'' 4, Occupied ''a'' 0, Occupied ''b'' 1,
        Occupied ''c'' 2] 5) \<and>
   rehash (single5 0 [Empty, Empty, Occupied ''a'' 0, Occupied ''b'' 1, Occupied ''c'' 2] 3) =
     (Some FullError,
      single5 1 [Empty, Empty, Occupied ''a'' 0, Occupied ''b'' 1, Occupied ''c'' 2] 3) \<and>
   hashy_probe
     (single5 0 [Empty, Empty, Occupied ''a'' 0, Occupied ''b'' 1, Occupied ''c'' 2] 3)
     ''d'' True = Inr 0 \<and>
   setitem (single5 0 [Empty, Empty, Occupied ''a'' 0, Occupied ''b'' 1, Occupied ''c'' 2] 3)
     ''d'' 3 =
     (Some FullError,
      single5 1 [Occupied ''d'' 3, Empty, Occupied ''a'' 0, Occupied ''b'' 1, Occupied ''c'' 2] 4)
   \<and>
   fst (setitem (pair34 0 [Empty, Occupied ''d'' 6, Occupied ''b'' 5] 2) ''f'' 7) =
     Some FullError \<and>
   hashy_probe (pair34 0 [Empty, Occupied ''d'' 6, Occupied ''b'' 5] 2) ''f'' True = Inr 0 \<and>
   store (pair34 0 [Empty, Occupied ''d'' 6, Occupied ''b'' 5] 2) 0 ''f'' 7 =
     pair34 0 [Occupied ''f'' 7, Occupied ''d'' 6, Occupied ''b'' 5] 3 \<and>
   load_exceeded 3 3 \<and>
   setitem (pair34 0 [Empty, Occupied ''d'' 6, Occupied ''b'' 5] 2) ''f'' 7 =
     rehash (pair34 0 [Occupied ''f'' 7, Occupied ''d'' 6, Occupied ''b'' 5] 3) \<and>
   rehash (pair34 0 [Occupied ''f'' 7, Occupied ''d'' 6, Occupied ''b'' 5] 3) =
     (Some FullError, pair34 1 [Occupied ''d'' 6, Empty, Occupied ''f'' 7, Empty] 2) \<and>
   Suc (size_index (pair34 0 [Occupied ''f'' 7, Occupied ''d'' 6, Occupied ''b'' 5] 3)) <
     length (TABLE_SIZES (pair34 0 [Occupied ''f'' 7, Occupied ''d'' 6, Occupied ''b'' 5] 3)) \<and>
   size_index (pair34 0 [Occupied ''f'' 7, Occupied ''d'' 6, Occupied ''b'' 5] 3) <
     size_index (pair34 1 [Occupied ''d'' 6, Empty, Occupied ''f'' 7, Empty] 2) \<and>
   table_size (pair34 1 [Occupied ''d'' 6, Empty, Occupied ''f'' 7, Empty] 2) = [3, 4] ! 1 \<and>
   set (slot_entries (array (pair34 1 [Occupied ''d'' 6, Empty, Occupied ''f'' 7, Empty] 2)))
     \<subseteq> set (slot_entries
           (array (pair34 0 [Occupied ''f'' 7, Occupied ''d'' 6, Occupied ''b'' 5] 3))) \<and>
   count (pair34 1 [Occupied ''d'' 6, Empty, Occupied ''f'' 7, Empty] 2) =
     int (length (slot_entries
       (array (pair34 1 [Occupied ''d'' 6, Empty, Occupied ''f'' 7, Empty] 2))))"
proof -
  let ?full = "single5 2 [Occupied ''d'' 3, Occupied ''e'' 4, Occupied ''a'' 0,
    Occupied ''b'' 1, Occupied ''c'' 2] 5"
  let ?abc = "single5 0 [Empty, Empty, Occupied ''a'' 0, Occupied ''b'' 1, Occupied ''c'' 2] 3"
  let ?bd = "pair34 0 [Empty, Occupied ''d'' 6, Occupied ''b'' 5] 2"
  let ?fdb = "pair34 0 [Occupied ''f'' 7, Occupied ''d'' 6, Occupied ''b'' 5] 3"
  let ?left = "pair34 1 [Occupied ''d'' 6, Empty, Occupied ''f'' 7, Empty] 2"
  have p1: "hashy_probe ?full ''f'' True = Inl FullError"
    by (simp add: table_eval)
  have p2: "length (TABLE_SIZES ?abc) \<le> Suc (size_index ?abc)"
    by (simp add: single5_def)
  have p3: "hashy_probe ?abc ''d'' True = Inr 0"
    by (simp add: table_eval)
  have p4: "load_exceeded (count (store ?abc 0 ''d'' 3)) (table_size ?abc)"
    by (simp add: table_eval)
  have s: "(store ?abc 0 ''d'' 3)\<lparr>size_index := Suc (size_index ?abc)\<rparr> =
      single5 1 [Occupied ''d'' 3, Empty, Occupied ''a'' 0, Occupied ''b'' 1, Occupied ''c'' 2] 4"
    by (simp add: table_eval)
  have u: "?abc\<lparr>size_index := Suc (size_index ?abc)\<rparr> =
      single5 1 [Empty, Empty, Occupied ''a'' 0, Occupied ''b'' 1, Occupied ''c'' 2] 3"
    by (simp add: single5_def)
  have p5: "fst (setitem ?bd ''f'' 7) = Some FullError"
    unfolding pair34_run(3) by simp
  have p6: "hashy_probe ?bd ''f'' True = Inr 0"
    by (simp add: pair34_eval)
  have w: "store ?bd 0 ''f'' 7 = ?fdb"
    by (simp add: pair34_eval)
  have p7: "fst (rehash ?fdb) = Some FullError \<and>
      Suc (size_index ?fdb) < length (TABLE_SIZES ?fdb)"
    unfolding pair34_run(4) by (simp add: pair34_def)
  have r: "rehash ?fdb = (Some FullError, ?left)"
    by (rule pair34_run(4))
  have l: "load_exceeded 3 3" by (simp add: load_exceeded_def)
  have ts: "TABLE_SIZES ?fdb = [3, 4]" by (simp add: pair34_def)
  from table_full_leaves_table [of ?full "''f''" 5] p1
  have a: "setitem ?full ''f'' 5 = (Some FullError, ?full)"
    by blast
  from table_full_leaves_table [of ?abc "''d''" 3 0] p2 p3 p4
  have b: "rehash ?abc = (Some FullError, ?abc\<lparr>size_index := Suc (size_index ?abc)\<rparr>)"
    and c: "setitem ?abc ''d'' 3 =
      (Some FullError, (store ?abc 0 ''d'' 3)\<lparr>size_index := Suc (size_index ?abc)\<rparr>)"
    by blast+
  from table_full_leaves_table [of ?bd "''f''" 7] p5
  have "case hashy_probe ?bd ''f'' True of
         Inl e \<Rightarrow> e = FullError \<and> snd (setitem ?bd ''f'' 7) = ?bd
       | Inr p \<Rightarrow>
           load_exceeded (count (store ?bd p ''f'' 7)) (table_size ?bd) \<and>
           setitem ?bd ''f'' 7 = rehash (store ?bd p ''f'' 7)"
    by blast
  then have d: "setitem ?bd ''f'' 7 = rehash ?fdb"
    using p6 w by simp
  from table_full_leaves_table [of ?fdb] p7
  have e: "size_index ?fdb < size_index (snd (rehash ?fdb))"
    "table_size (snd (rehash ?fdb)) =
      TABLE_SIZES ?fdb ! min (size_index (snd (rehash ?fdb))) (length (TABLE_SIZES ?fdb) - 1)"
    "set (slot_entries (array (snd (rehash ?fdb)))) \<subseteq> set (slot_entries (array ?fdb))"
    "count (snd (rehash ?fdb)) = int (length (slot_entries (array (snd (rehash ?fdb)))))"
    by blast+
  from e(2) have e2: "table_size ?left = [3, 4] ! 1"
    unfolding r snd_conv ts by (simp add: pair34_def)
  from a b c d e(1,3,4) e2 p1 p3 p5 p6 p7 w l r show ?thesis
    unfolding s u r snd_conv by simp
qed

text \<open>
  Claim C4 as stated fails. Over the schedule \<^verbatim>\<open>[5]\<close> with \<^verbatim>\<open>a\<close>, \<^verbatim>\<open>b\<close> and \<^verbatim>\<open>c\<close>
  stored, the insert of \<^verbatim>\<open>d\<close> raises table-full and leaves \<^verbatim>\<open>d\<close> stored, \<^verbatim>\<open>count\<close> 4
  and \<^verbatim>\<open>size_index\<close> 1; \<^verbatim>\<open>rehash\<close> on the same table raises table-full and leaves
  \<^verbatim>\<open>size_index\<close> 1. Over the schedule \<^verbatim>\<open>[3, 4]\<close> with \<^verbatim>\<open>b\<close> and \<^verbatim>\<open>d\<close> stored, the
  insert of \<^verbatim>\<open>f\<close> raises table-full from the reinsertion loop of its rehash: the array
  has been replaced by one of four slots and \<^verbatim>\<open>b\<close> is lost.
\<close>

theorem table_full_changes_table:
  "init (Some [5]) = Inr (single5 0 [Empty, Empty, Empty, Empty, Empty] 0) \<and>
   setitem (single5 0 [Empty, Empty, Empty, Empty, Empty] 0) ''a'' 0 =
     (None, single5 0 [Empty, Empty, Occupied ''a'' 0, Empty, Empty] 1) \<and>
   setitem (single5 0 [Empty, Empty, Occupied ''a'' 0, Empty, Empty] 1) ''b'' 1 =
     (None, single5 0 [Empty, Empty, Occupied ''a'' 0, Occupied ''b'' 1, Empty] 2) \<and>
   setitem (single5 0 [Empty, Empty, Occupied ''a'' 0, Occupied ''b'' 1, Empty] 2) ''c'' 2 =
     (None, single5 0 [Empty, Empty, Occupied ''a'' 0, Occupied ''b'' 1, Occupied ''c'' 2] 3) \<and>
   setitem (single5 0 [Empty, Empty, Occupied ''a'' 0, Occupied ''b'' 1, Occupied ''c'' 2] 3)
     ''d'' 3 =
     (Some FullError,
      single5 1 [Occupied ''d'' 3, Empty, Occupied ''a'' 0, Occupied ''b'' 1, Occupied ''c'' 2] 4)
   \<and>
   rehash (single5 0 [Empty, Empty, Occupied ''a'' 0, Occupied ''b'' 1, Occupied ''c'' 2] 3) =
     (Some FullError,
      single5 1 [Empty, Empty, Occupied ''a'' 0, Occupied ''b'' 1, Occupied ''c'' 2] 3)
   \<and>
   size_index (single5 1 [Empty, Empty, Occupied ''a'' 0, Occupied ''b'' 1, Occupied ''c'' 2] 3)
     \<noteq>
   size_index (single5 0 [Empty, Empty, Occupied ''a'' 0, Occupied ''b'' 1, Occupied ''c'' 2] 3)
   \<and>
   array (single5 1 [Occupied ''d'' 3, Empty, Occupied ''a'' 0, Occupied ''b'' 1,
     Occupied ''c'' 2] 4) \<noteq>
   array (single5 0 [Empty, Empty, Occupied ''a'' 0, Occupied ''b'' 1, Occupied ''c'' 2] 3)
   \<and>
   count (single5 1 [Occupied ''d'' 3, Empty, Occupied ''a'' 0, Occupied ''b'' 1,
     Occupied ''c'' 2] 4) \<noteq>
   count (single5 0 [Empty, Empty, Occupied ''a'' 0, Occupied ''b'' 1, Occupied ''c'' 2] 3)
   \<and>
   init (Some [3, 4]) = Inr (pair34 0 [Empty, Empty, Empty] 0) \<and>
   setitem (pair34 0 [Empty, Empty, Empty] 0) ''b'' 5 =
     (None, pair34 0 [Empty, Empty, Occupied ''b'' 5] 1) \<and>
   setitem (pair34 0 [Empty, Empty, Occupied ''b'' 5] 1) ''d'' 6 =
     (None, pair34 0 [Empty, Occupied ''d'' 6, Occupied ''b'' 5] 2) \<and>
   getitem (pair34 0 [Empty, Occupied ''d'' 6, Occupied ''b'' 5] 2) ''b'' = Inr 5 \<and>
   setitem (pair34 0 [Empty, Occupied ''d'' 6, Occupied ''b'' 5] 2) ''f'' 7 =
     (Some FullError, pair34 1 [Occupied ''d'' 6, Empty, Occupied ''f'' 7, Empty] 2) \<and>
   getitem (pair34 1 [Occupied ''d'' 6, Empty, Occupied ''f'' 7, Empty] 2) ''b'' =
     Inl KeyError \<and>
   table_size (pair34 1 [Occupied ''d'' 6, Empty, Occupied ''f'' 7, Empty] 2) \<noteq>
   table_size (pair34 0 [Empty, Occupied ''d'' 6, Occupied ''b'' 5] 2)"
  by (simp add: init_single5 single5_run init_pair34 pair34_run) (simp add: pair34_eval)

section \<open>Claim C5: rehash\<close>

text \<open>
  Claim C5: a rehash reinserts every Occupied entry and discards the tombstones, so
  that every inserted, non-deleted key stays retrievable, also across rehashes forced
  by inserts.

  A rehash that returns keeps every entry (\<open>rehash_keeps_entries\<close>), but it returns
  only from a table without tombstones.
  The loop of \<^verbatim>\<open>_rehash\<close> unpacks every slot that is not \<^verbatim>\<open>None\<close>, and unpacking the
  sentinel \<^verbatim>\<open>DELETED\<close> raises \<^verbatim>\<open>TypeError\<close>. On the default table, insert \<^verbatim>\<open>a\<close> and
  \<^verbatim>\<open>b\<close>, delete \<^verbatim>\<open>a\<close>, insert \<^verbatim>\<open>c\<close> and \<^verbatim>\<open>d\<close>; then \<^verbatim>\<open>b\<close> is retrievable. The
  insert of \<^verbatim>\<open>e\<close> forces a rehash, which raises at the Tombstone in slot 2 with the new
  array in place: \<^verbatim>\<open>b\<close> and \<^verbatim>\<open>c\<close>, stored behind the Tombstone, are lost.
\<close>

theorem rehash_raises_on_tombstone:
  "init None = Inr (table5 [Empty, Empty, Empty, Empty, Empty] 0) \<and>
   setitem (table5 [Empty, Empty, Empty, Empty, Empty] 0) ''a'' 0 =
     (None, table5 [Empty, Empty, Occupied ''a'' 0, Empty, Empty] 1) \<and>
   setitem (table5 [Empty, Empty, Occupied ''a'' 0, Empty, Empty] 1) ''b'' 1 =
     (None, table5 [Empty, Empty, Occupied ''a'' 0, Occupied ''b'' 1, Empty] 2) \<and>
   delitem (table5 [Empty, Empty, Occupied ''a'' 0, Occupied ''b'' 1, Empty] 2) ''a'' =
     (None, table5 [Empty, Empty, Tombstone, Occupied ''b'' 1, Empty] 1) \<and>
   setitem (table5 [Empty, Empty, Tombstone, Occupied ''b'' 1, Empty] 1) ''c'' 2 =
     (None, table5 [Empty, Empty, Tombstone, Occupied ''b'' 1, Occupied ''c'' 2] 2) \<and>
   setitem (table5 [Empty, Empty, Tombstone, Occupied ''b'' 1, Occupied ''c'' 2] 2) ''d'' 3 =
     (None, table5 [Occupied ''d'' 3, Empty, Tombstone, Occupied ''b'' 1, Occupied ''c'' 2] 3) \<and>
   getitem (table5 [Occupied ''d'' 3, Empty, Tombstone, Occupied ''b'' 1, Occupied ''c'' 2] 3)
     ''b'' = Inr 1 \<and>
   setitem (table5 [Occupied ''d'' 3, Empty, Tombstone, Occupied ''b'' 1, Occupied ''c'' 2] 3)
     ''e'' 4 =
     (Some TypeError,
      table13 [Empty, Empty, Empty, Empty, Empty, Empty, Empty, Empty, Empty,
               Occupied ''d'' 3, Occupied ''e'' 4, Empty, Empty] 2) \<and>
   getitem (table13 [Empty, Empty, Empty, Empty, Empty, Empty, Empty, Empty, Empty,
               Occupied ''d'' 3, Occupied ''e'' 4, Empty, Empty] 2) ''b'' = Inl KeyError"
  by (simp add: init_table5) (simp add: table_eval DEFAULT_TABLE_SIZES_def)

section \<open>Claim C6: the load-factor trigger\<close>

text \<open>
  Claim C6: for every insert via \<^verbatim>\<open>set\<close>, if immediately after the write the count
  exceeds two thirds of the capacity, a rehash to the next schedule entry occurs
  before the call returns; otherwise the capacity is unchanged by the call.

  With \<open>written\<close> the table right after the write: when the load is exceeded, the
  result of \<^verbatim>\<open>set\<close> is the result of \<^verbatim>\<open>rehash\<close> on \<open>written\<close>; \<^verbatim>\<open>rehash\<close>, when the
  schedule has a next entry, reinserts the slots of \<open>written\<close> into a fresh array of
  that entry's size; and when the call returns, the capacity is that of a later
  schedule entry, at which \<^verbatim>\<open>size_index\<close> then stands. Otherwise \<^verbatim>\<open>set\<close> leaves
  \<open>written\<close>, whose capacity is that of the table before the call.
\<close>

theorem setitem_load_factor_trigger:
  "hashy_probe t key True = Inr position \<Longrightarrow>
   (let written = store t position key data
    in (load_exceeded (count written) (table_size written) \<longrightarrow>
          setitem t key data = rehash written \<and>
          (Suc (size_index t) < length (TABLE_SIZES t) \<longrightarrow>
             rehash written =
               reinsert (array written)
                 (written\<lparr>size_index := Suc (size_index t),
                    array := ArrayR (TABLE_SIZES t ! Suc (size_index t)), count := 0\<rparr>)) \<and>
          (fst (setitem t key data) = None \<longrightarrow> grown t (snd (setitem t key data)))) \<and>
       (\<not> load_exceeded (count written) (table_size written) \<longrightarrow>
          snd (setitem t key data) = written \<and> table_size written = table_size t))"
proof -
  assume p: "hashy_probe t key True = Inr position"
  let ?w = "store t position key data"
  have a: "setitem t key data = rehash ?w" if "load_exceeded (count ?w) (table_size ?w)"
    using p that by (auto simp: setitem.simps Let_def len_def load_exceeded_def)
  have b: "rehash ?w =
      reinsert (array ?w)
        (?w\<lparr>size_index := Suc (size_index t),
           array := ArrayR (TABLE_SIZES t ! Suc (size_index t)), count := 0\<rparr>)"
    if "Suc (size_index t) < length (TABLE_SIZES t)"
    using that by (simp add: rehash.simps Let_def)
  have c: "grown t (snd (setitem t key data))"
    if "load_exceeded (count ?w) (table_size ?w)" "fst (setitem t key data) = None"
  proof -
    from that a have "fst (rehash ?w) = None" by simp
    then have "grown ?w (snd (rehash ?w))" by (rule set_rehash_reinsert_capacity(2))
    with a that(1) show ?thesis by (simp add: grown_def)
  qed
  have d: "snd (setitem t key data) = ?w \<and> table_size ?w = table_size t"
    if "\<not> load_exceeded (count ?w) (table_size ?w)"
    using p that by (auto simp: setitem.simps Let_def len_def)
  from a b c d show ?thesis unfolding Let_def by blast
qed

theorem setitem_load_factor_trigger_witness:
  "hashy_probe (table5 [Empty, Empty, Occupied ''a'' 0, Occupied ''b'' 1, Occupied ''c'' 2] 3)
     ''d'' True = Inr 0 \<and>
   store (table5 [Empty, Empty, Occupied ''a'' 0, Occupied ''b'' 1, Occupied ''c'' 2] 3)
     0 ''d'' 3 =
     table5 [Occupied ''d'' 3, Empty, Occupied ''a'' 0, Occupied ''b'' 1, Occupied ''c'' 2] 4 \<and>
   load_exceeded 4 5 \<and>
   setitem (table5 [Empty, Empty, Occupied ''a'' 0, Occupied ''b'' 1, Occupied ''c'' 2] 3)
     ''d'' 3 =
     rehash
       (table5 [Occupied ''d'' 3, Empty, Occupied ''a'' 0, Occupied ''b'' 1, Occupied ''c'' 2] 4)
   \<and>
   rehash
     (table5 [Occupied ''d'' 3, Empty, Occupied ''a'' 0, Occupied ''b'' 1, Occupied ''c'' 2] 4) =
     (None, table13 [Empty, Empty, Empty, Empty, Empty, Empty, Occupied ''a'' 0,
        Occupied ''b'' 1, Occupied ''c'' 2, Occupied ''d'' 3, Empty, Empty, Empty] 4) \<and>
   grown (table5 [Empty, Empty, Occupied ''a'' 0, Occupied ''b'' 1, Occupied ''c'' 2] 3)
     (table13 [Empty, Empty, Empty, Empty, Empty, Empty, Occupied ''a'' 0,
        Occupied ''b'' 1, Occupied ''c'' 2, Occupied ''d'' 3, Empty, Empty, Empty] 4) \<and>
   hashy_probe (table5 [Empty, Empty, Empty, Empty, Empty] 0) ''x'' True = Inr 0 \<and>
   \<not> load_exceeded 1 5 \<and>
   snd (setitem (table5 [Empty, Empty, Empty, Empty, Empty] 0) ''x'' 1) =
     table5 [Occupied ''x'' 1, Empty, Empty, Empty, Empty] 1"
proof -
  let ?abc = "table5 [Empty, Empty, Occupied ''a'' 0, Occupied ''b'' 1, Occupied ''c'' 2] 3"
  let ?abcd = "table5 [Occupied ''d'' 3, Empty, Occupied ''a'' 0, Occupied ''b'' 1,
    Occupied ''c'' 2] 4"
  let ?big = "table13 [Empty, Empty, Empty, Empty, Empty, Empty, Occupied ''a'' 0,
        Occupied ''b'' 1, Occupied ''c'' 2, Occupied ''d'' 3, Empty, Empty, Empty] 4"
  let ?new = "table5 [Empty, Empty, Empty, Empty, Empty] 0"
  have p: "hashy_probe ?abc ''d'' True = Inr 0"
    by (simp add: table_eval)
  have w: "store ?abc 0 ''d'' 3 = ?abcd"
    by (simp add: table_eval)
  have l: "load_exceeded (count ?abcd) (table_size ?abcd)" "load_exceeded 4 5"
    by (simp_all add: table_eval)
  have r: "rehash ?abcd = (None, ?big)"
    by (simp add: table_eval DEFAULT_TABLE_SIZES_def)
  have q: "hashy_probe ?new ''x'' True = Inr 0"
    by (simp add: table_eval)
  have v: "store ?new 0 ''x'' 1 = table5 [Occupied ''x'' 1, Empty, Empty, Empty, Empty] 1"
    by (simp add: table_eval)
  have n: "\<not> load_exceeded (count (table5 [Occupied ''x'' 1, Empty, Empty, Empty, Empty] 1))
      (table_size (table5 [Occupied ''x'' 1, Empty, Empty, Empty, Empty] 1))"
    "\<not> load_exceeded 1 5"
    by (simp_all add: table_eval)
  from setitem_load_factor_trigger [OF p, of 3] l
  have a: "setitem ?abc ''d'' 3 = rehash ?abcd"
    and g: "fst (setitem ?abc ''d'' 3) = None \<longrightarrow> grown ?abc (snd (setitem ?abc ''d'' 3))"
    unfolding w Let_def by blast+
  from a r g have g': "grown ?abc ?big" by simp
  from setitem_load_factor_trigger [OF q, of 1] n
  have b: "snd (setitem ?new ''x'' 1) = table5 [Occupied ''x'' 1, Empty, Empty, Empty, Empty] 1"
    unfolding v Let_def by blast
  from a b p q w l n r g' show ?thesis by simp
qed

section \<open>Claim C7: keys and values\<close>

text \<open>
  Claim C7: for every table state, also one with tombstones left by deletes, \<^verbatim>\<open>keys()\<close>
  returns the keys of the Occupied slots and \<^verbatim>\<open>values()\<close> their values, in index order.

  Both methods subscript every slot that is not \<^verbatim>\<open>None\<close>. After an insert and a delete
  of \<^verbatim>\<open>x\<close> on the default table, slot 0 holds the sentinel, and both methods raise
  \<^verbatim>\<open>TypeError\<close> instead of returning the empty list.
\<close>

theorem keys_values_raise_on_tombstone:
  "init None = Inr (table5 [Empty, Empty, Empty, Empty, Empty] 0) \<and>
   setitem (table5 [Empty, Empty, Empty, Empty, Empty] 0) ''x'' 1 =
     (None, table5 [Occupied ''x'' 1, Empty, Empty, Empty, Empty] 1) \<and>
   delitem (table5 [Occupied ''x'' 1, Empty, Empty, Empty, Empty] 1) ''x'' =
     (None, table5 [Tombstone, Empty, Empty, Empty, Empty] 0) \<and>
   keys (table5 [Tombstone, Empty, Empty, Empty, Empty] 0) = Inl TypeError \<and>
   values_tbl (table5 [Tombstone, Empty, Empty, Empty, Empty] 0) = Inl TypeError"
  by (simp add: init_table5) (simp add: table_eval)

section \<open>Claim C8: the probe\<close>

text \<open>
  Claim C8: the probe starts at \<^verbatim>\<open>hash(key)\<close>, advances by \<^verbatim>\<open>step(key)\<close> modulo the
  capacity and examines at most capacity slots. A lookup fails with key-not-found at an
  Empty slot or when the budget is exhausted, and returns the index of an Occupied slot
  with the key. An insert returns, at an Empty slot, the first Tombstone index seen so
  far or else the Empty index, and, with the budget exhausted, the recorded Tombstone
  index or else fails with table-full.

  \<open>probe_spec\<close> says this over the path of the examined positions, which has capacity
  many entries; \<^verbatim>\<open>_hashy_probe\<close> computes it from the two hashes, whose errors it
  passes on.
\<close>

theorem hashy_probe_refines_spec:
  "hashy_probe t key is_insert =
     (case hash t key of
        Inl e \<Rightarrow> Inl e
      | Inr start \<Rightarrow>
          (case hash2 t key of
             Inl e \<Rightarrow> Inl e
           | Inr step \<Rightarrow> probe_spec (array t) key is_insert start step))
   \<and> length (probe_path (table_size t) (table_size t) start step) = table_size t"
  by (simp add: hashy_probe_def probe_loop_spec_on probe_spec_def Let_def
      table_size_def length_probe_path split: sum.splits)

section \<open>Claim C9: the step hash\<close>

text \<open>
  Claim C9: for every key and every capacity for which the step hash is defined, it
  returns an integer of at least 1, so successive probe positions differ from the
  previous position by a nonzero stride.

  A probe examines two successive positions only when the capacity is at least 2; the
  step is then below the capacity as well, and the position after any position of the
  table is a different one.
\<close>

theorem hash2_at_least_one:
  "hash2 t key = Inr step_size \<Longrightarrow>
     1 \<le> step_size \<and>
     (\<forall>position < table_size t. 2 \<le> table_size t \<longrightarrow>
        (position + step_size) mod table_size t \<noteq> position)"
proof -
  assume h: "hash2 t key = Inr step_size"
  then have b: "1 \<le> step_size" "2 \<le> table_size t \<Longrightarrow> step_size < table_size t"
    using hash2_loop_bounds[of "table_size t" key 0 step_size] by (auto simp: hash2_def)
  have "(position + step_size) mod table_size t \<noteq> position"
    if "position < table_size t" "2 \<le> table_size t" for position
  proof (cases "position + step_size < table_size t")
    case True
    with b show ?thesis by simp
  next
    case False
    with that b have "(position + step_size) mod table_size t = position + step_size - table_size t"
      by (simp add: le_mod_geq)
    with that b False show ?thesis by simp
  qed
  with b show ?thesis by blast
qed

theorem hash2_at_least_one_witness:
  "hash2 (table5 [Empty, Empty, Empty, Empty, Empty] 0) ''x'' = Inr 1 \<and>
   (1::nat) \<le> 1 \<and>
   4 < table_size (table5 [Empty, Empty, Empty, Empty, Empty] 0) \<and>
   2 \<le> table_size (table5 [Empty, Empty, Empty, Empty, Empty] 0) \<and>
   (4 + 1) mod table_size (table5 [Empty, Empty, Empty, Empty, Empty] 0) \<noteq> 4"
proof -
  have h: "hash2 (table5 [Empty, Empty, Empty, Empty, Empty] 0) ''x'' = Inr 1"
    by (simp add: table_eval)
  have c: "4 < table_size (table5 [Empty, Empty, Empty, Empty, Empty] 0)"
    "2 \<le> table_size (table5 [Empty, Empty, Empty, Empty, Empty] 0)"
    by (simp_all add: table_eval)
  from hash2_at_least_one [OF h] c
  have "(4 + 1) mod table_size (table5 [Empty, Empty, Empty, Empty, Empty] 0) \<noteq> 4"
    by blast
  with h c show ?thesis by simp
qed

section \<open>Claim C10: the primary hash\<close>

text \<open>
  Claim C10: the primary hash reduces its multiplier modulo capacity - 1, so it is a
  total function into the indices below the capacity only when the capacity is at least
  2; with a capacity of 1, every keyed operation on a non-empty key fails with a
  division by zero, not with key-not-found or table-full.
\<close>

theorem hash_total_iff_capacity_at_least_2:
  "(2 \<le> table_size t \<longrightarrow> (\<exists>h. hash t key = Inr h \<and> h < table_size t)) \<and>
   (table_size t < 2 \<and> key \<noteq> [] \<longrightarrow> hash t key = Inl ZeroDivisionError) \<and>
   (table_size t = 1 \<and> key \<noteq> [] \<longrightarrow>
      getitem t key = Inl ZeroDivisionError \<and>
      contains t key = Inl ZeroDivisionError \<and>
      setitem t key data = (Some ZeroDivisionError, t) \<and>
      delitem t key = (Some ZeroDivisionError, t))"
proof (intro conjI impI)
  assume "2 \<le> table_size t"
  then show "\<exists>h. hash t key = Inr h \<and> h < table_size t"
    unfolding hash_def by (intro hash_loop_in_range) simp_all
next
  assume "table_size t < 2 \<and> key \<noteq> []"
  then show "hash t key = Inl ZeroDivisionError"
    by (simp add: hash_def hash_loop_zero_division)
next
  assume a: "table_size t = 1 \<and> key \<noteq> []"
  then have h: "hash t key = Inl ZeroDivisionError"
    by (simp add: hash_def hash_loop_zero_division)
  then have p: "hashy_probe t key b = Inl ZeroDivisionError" for b
    by (simp add: hashy_probe_def)
  show "getitem t key = Inl ZeroDivisionError"
    by (simp add: getitem_def p)
  then show "contains t key = Inl ZeroDivisionError"
    by (simp add: contains_def)
  show "setitem t key data = (Some ZeroDivisionError, t)"
    by (simp add: setitem.simps p)
  show "delitem t key = (Some ZeroDivisionError, t)"
    by (simp add: delitem_def p)
qed

theorem hash_total_iff_capacity_at_least_2_witness:
  "init None = Inr (table5 [Empty, Empty, Empty, Empty, Empty] 0) \<and>
   2 \<le> table_size (table5 [Empty, Empty, Empty, Empty, Empty] 0) \<and>
   hash (table5 [Empty, Empty, Empty, Empty, Empty] 0) ''x'' = Inr 0 \<and>
   init (Some [1]) = Inr table1 \<and>
   table_size table1 = 1 \<and> ''x'' \<noteq> [] \<and>
   hash table1 ''x'' = Inl ZeroDivisionError \<and>
   getitem table1 ''x'' = Inl ZeroDivisionError \<and>
   contains table1 ''x'' = Inl ZeroDivisionError \<and>
   setitem table1 ''x'' 7 = (Some ZeroDivisionError, table1) \<and>
   delitem table1 ''x'' = (Some ZeroDivisionError, table1)"
proof -
  have c5: "2 \<le> table_size (table5 [Empty, Empty, Empty, Empty, Empty] 0)"
    by (simp add: table_size_def table5_def)
  have c1: "table_size table1 < 2 \<and> ''x'' \<noteq> []" "table_size table1 = 1 \<and> ''x'' \<noteq> []"
    by (simp_all add: table_size_def table1_def)
  have h0: "hash (table5 [Empty, Empty, Empty, Empty, Empty] 0) ''x'' = Inr 0"
    by (simp add: table_eval)
  note thm5 = hash_total_iff_capacity_at_least_2
    [of "table5 [Empty, Empty, Empty, Empty, Empty] 0" "''x''" 7]
  note thm1 = hash_total_iff_capacity_at_least_2 [of table1 "''x''" 7]
  from thm5 c5 have "\<exists>h. hash (table5 [Empty, Empty, Empty, Empty, Empty] 0) ''x'' = Inr h"
    by blast
  with thm1 c1 c5 h0 init_table5 init_table1 show ?thesis by simp
qed

end
